theory Spec2Isabelle
  imports Main "HOL-Library.AList"
begin

section \<open>Python strings\<close>

text \<open>
  A Python \<^verbatim>\<open>str\<close> is a sequence of Unicode code points; \<^verbatim>\<open>len\<close>, slicing and the
  regular expression engine all count code points. A string is therefore a list of
  natural numbers, and \<open>asc\<close> reads an ASCII literal of the source.
\<close>

type_synonym pystr = "nat list"

definition asc :: "string \<Rightarrow> pystr" where
  "asc s = map of_char s"

text \<open>
  Two things the program's result depends on are fixed by the Python runtime and not by
  the repository: the Unicode character database consulted for code points beyond ASCII
  (which of them are decimal digits for \<^verbatim>\<open>\d\<close> and alphanumeric for \<^verbatim>\<open>\w\<close>), and the
  order in which a \<^verbatim>\<open>set\<close> is iterated. Both are parameters of the model, so that every
  theorem stated for all runtimes holds for the real one.
\<close>

record runtime =
  uni_decimal :: "nat \<Rightarrow> bool"
  uni_alnum :: "nat \<Rightarrow> bool"
  set_order :: "pystr list \<Rightarrow> pystr list"

text \<open>
  \<^verbatim>\<open>set(xs)\<close> followed by \<^verbatim>\<open>for x in ...\<close>: the distinct elements, in the order the runtime
  chooses. Whatever \<open>set_order\<close> is, the result enumerates each distinct element once.
\<close>

definition pyset :: "runtime \<Rightarrow> pystr list \<Rightarrow> pystr list" where
  "pyset U xs =
     (let d = remdups xs; ys = set_order U d
      in if distinct ys \<and> set ys = set d then ys else d)"

text \<open>
  Whitespace as \<^verbatim>\<open>str.strip()\<close>, \<^verbatim>\<open>str.isspace()\<close> and the pattern \<^verbatim>\<open>\s\<close> of a \<^verbatim>\<open>str\<close>
  pattern understand it: the same 29 code points in all three.
\<close>

definition is_space :: "nat \<Rightarrow> bool" where
  "is_space c = (c \<in> set [9, 10, 11, 12, 13, 28, 29, 30, 31, 32, 133, 160, 5760,
      8192, 8193, 8194, 8195, 8196, 8197, 8198, 8199, 8200, 8201, 8202,
      8232, 8233, 8239, 8287, 12288])"

definition is_digit :: "runtime \<Rightarrow> nat \<Rightarrow> bool" where
  "is_digit U c = (if c < 128 then 48 \<le> c \<and> c \<le> 57 else uni_decimal U c)"

definition is_word :: "runtime \<Rightarrow> nat \<Rightarrow> bool" where
  "is_word U c =
     (if c < 128
      then (48 \<le> c \<and> c \<le> 57) \<or> (65 \<le> c \<and> c \<le> 90) \<or> c = 95 \<or> (97 \<le> c \<and> c \<le> 122)
      else uni_alnum U c)"

definition py_strip :: "pystr \<Rightarrow> pystr" where
  "py_strip s = rev (dropWhile is_space (rev (dropWhile is_space s)))"

text \<open>
  \<^verbatim>\<open>str.lower()\<close>. It is exact on ASCII and on the two other code points whose lower case
  contains an ASCII letter: U+0130 (capital I with dot above, which becomes \<^verbatim>\<open>i\<close> followed
  by U+0307) and U+212A (the Kelvin sign). Every other code point is kept as it is: Python
  maps it to non-ASCII code points only, and the program uses lowered text for nothing but
  containment of ASCII phrases and lookup of ASCII keys, which cannot tell the difference.
\<close>

definition lower_cp :: "nat \<Rightarrow> pystr" where
  "lower_cp c =
     (if 65 \<le> c \<and> c \<le> 90 then [c + 32]
      else if c = 304 then [105, 775]
      else if c = 8490 then [107]
      else [c])"

definition py_lower :: "pystr \<Rightarrow> pystr" where
  "py_lower s = concat (map lower_cp s)"

text \<open>
  \<^verbatim>\<open>str.title()\<close>: a character that follows a cased character is lowered, any other one is
  title-cased. The program applies it to matches of the organism pattern only; the tables
  are exact on the code points such a match can contain (ASCII, U+0130, U+0131, U+017F).
\<close>

definition is_cased :: "nat \<Rightarrow> bool" where
  "is_cased c = ((65 \<le> c \<and> c \<le> 90) \<or> (97 \<le> c \<and> c \<le> 122) \<or> c = 304 \<or> c = 305 \<or> c = 383 \<or> c = 8490)"

definition title_cp :: "nat \<Rightarrow> pystr" where
  "title_cp c =
     (if 97 \<le> c \<and> c \<le> 122 then [c - 32]
      else if c = 305 then [73]
      else if c = 383 then [83]
      else [c])"

fun title_from :: "bool \<Rightarrow> pystr \<Rightarrow> pystr" where
  "title_from previous_is_cased [] = []"
| "title_from previous_is_cased (c # cs) =
     (if previous_is_cased then lower_cp c else title_cp c) @ title_from (is_cased c) cs"

definition py_title :: "pystr \<Rightarrow> pystr" where
  "py_title s = title_from False s"

text \<open>\<^verbatim>\<open>needle in haystack\<close> on strings: containment as a contiguous substring.\<close>

fun starts_with :: "pystr \<Rightarrow> pystr \<Rightarrow> bool" where
  "starts_with [] s = True"
| "starts_with (p # ps) [] = False"
| "starts_with (p # ps) (c # cs) = (p = c \<and> starts_with ps cs)"

fun contains :: "pystr \<Rightarrow> pystr \<Rightarrow> bool" where
  "contains p [] = (p = [])"
| "contains p (c # cs) = (starts_with p (c # cs) \<or> contains p cs)"

section \<open>Regular expressions\<close>

text \<open>
  The fragment of \<^verbatim>\<open>re\<close> that the three patterns of the program use, all of them compiled
  with \<^verbatim>\<open>re.IGNORECASE\<close>. A literal of the pattern matches a character whose lower case is
  the literal's, and the engine adds the characters that share the literal's upper case:
  U+0130 and U+0131 for \<^verbatim>\<open>i\<close>, U+017F for \<^verbatim>\<open>s\<close>, U+212A for \<^verbatim>\<open>k\<close>.
\<close>

definition ascii_lower :: "nat \<Rightarrow> nat" where
  "ascii_lower c = (if 65 \<le> c \<and> c \<le> 90 then c + 32 else c)"

definition lit_ic :: "nat \<Rightarrow> nat \<Rightarrow> bool" where
  "lit_ic p c =
     (ascii_lower c = ascii_lower p
      \<or> (ascii_lower p = 105 \<and> (c = 304 \<or> c = 305))
      \<or> (ascii_lower p = 115 \<and> c = 383)
      \<or> (ascii_lower p = 107 \<and> c = 8490))"

datatype cclass = Lit nat | Space | Digit | OneOf "nat list"

fun in_class :: "runtime \<Rightarrow> cclass \<Rightarrow> nat \<Rightarrow> bool" where
  "in_class U (Lit p) c = lit_ic p c"
| "in_class U Space c = is_space c"
| "in_class U Digit c = is_digit U c"
| "in_class U (OneOf cs) c = (c \<in> set cs)"

text \<open>
  \<open>Many\<close> and \<open>Many1\<close> are the greedy \<^verbatim>\<open>*\<close> and \<^verbatim>\<open>+\<close>, which the patterns apply to single
  character classes only; \<open>Maybe\<close> is the greedy \<^verbatim>\<open>?\<close>, \<open>Bol\<close> is \<^verbatim>\<open>^\<close> and \<open>WordB\<close> is \<^verbatim>\<open>\b\<close>.
\<close>

datatype regex =
    Eps
  | Atom cclass
  | Many cclass
  | Many1 cclass
  | Maybe regex
  | Cat regex regex
  | Alt regex regex
  | Bol
  | WordB

fun lits :: "pystr \<Rightarrow> regex" where
  "lits [] = Eps"
| "lits (c # cs) = Cat (Atom (Lit c)) (lits cs)"

fun alts :: "regex list \<Rightarrow> regex" where
  "alts [] = Eps"
| "alts [r] = r"
| "alts (r # rs) = Alt r (alts rs)"

text \<open>
  The matcher sees the character before the current position (\<open>None\<close> at the start of the
  string) and the rest of the string. It returns every way to match, as the matched text
  and what is left, in the order in which the backtracking engine tries them: the head of
  the list is the match the engine reports.
\<close>

definition prev_after :: "nat option \<Rightarrow> pystr \<Rightarrow> nat option" where
  "prev_after p m = (if m = [] then p else Some (last m))"

definition at_boundary :: "runtime \<Rightarrow> nat option \<Rightarrow> pystr \<Rightarrow> bool" where
  "at_boundary U p s =
     ((case p of None \<Rightarrow> False | Some c \<Rightarrow> is_word U c)
        \<noteq> (case s of [] \<Rightarrow> False | c # _ \<Rightarrow> is_word U c))"

fun rmatch :: "runtime \<Rightarrow> regex \<Rightarrow> nat option \<Rightarrow> pystr \<Rightarrow> (pystr \<times> pystr) list" where
  "rmatch U Eps p s = [([], s)]"
| "rmatch U (Atom cl) p s =
     (case s of [] \<Rightarrow> [] | c # r \<Rightarrow> if in_class U cl c then [([c], r)] else [])"
| "rmatch U (Many cl) p s =
     map (\<lambda>n. (take n s, drop n s)) (rev [0 ..< Suc (length (takeWhile (in_class U cl) s))])"
| "rmatch U (Many1 cl) p s =
     map (\<lambda>n. (take n s, drop n s)) (rev [1 ..< Suc (length (takeWhile (in_class U cl) s))])"
| "rmatch U (Maybe r) p s = rmatch U r p s @ [([], s)]"
| "rmatch U (Cat a b) p s =
     concat (map (\<lambda>(m1, r1). map (\<lambda>(m2, r2). (m1 @ m2, r2)) (rmatch U b (prev_after p m1) r1))
                 (rmatch U a p s))"
| "rmatch U (Alt a b) p s = rmatch U a p s @ rmatch U b p s"
| "rmatch U Bol p s = (if p = None then [([], s)] else [])"
| "rmatch U WordB p s = (if at_boundary U p s then [([], s)] else [])"

text \<open>
  \<^verbatim>\<open>findall\<close> scans from left to right and resumes after each match. Each pattern it is
  used with has one group that spans the whole match, so the group's text is the match.
  (No pattern of the program matches the empty string; the model then moves on by one
  character.)
\<close>

function findall_from :: "runtime \<Rightarrow> regex \<Rightarrow> nat option \<Rightarrow> pystr \<Rightarrow> pystr list" where
  "findall_from U r p s =
     (case rmatch U r p s of
        [] \<Rightarrow> (case s of [] \<Rightarrow> [] | c # t \<Rightarrow> findall_from U r (Some c) t)
      | (m, r') # _ \<Rightarrow>
          (if m = [] then (case s of [] \<Rightarrow> [m] | c # t \<Rightarrow> m # findall_from U r (Some c) t)
           else m # findall_from U r (Some (last m)) r'))"
  by pat_completeness auto
termination
proof -
  have split: "(m, r') \<in> set (rmatch U r p s) \<Longrightarrow> s = m @ r'" for U r p s m r'
  proof (induction r arbitrary: p s m r')
    case (Cat a b)
    from Cat.prems obtain m1 r1 m2 where a: "(m1, r1) \<in> set (rmatch U a p s)"
      and b: "(m2, r') \<in> set (rmatch U b (prev_after p m1) r1)" and m: "m = m1 @ m2"
      by auto
    from Cat.IH(1)[OF a] Cat.IH(2)[OF b] m show ?case by simp
  qed (auto split: list.splits if_splits)
  have shorter: "rmatch U r p s = (m, r') # rest \<Longrightarrow> m \<noteq> [] \<Longrightarrow> length r' < length s"
    for U r p s m r' rest
    using split [of m r' U r p s] by (cases m) auto
  show ?thesis
    by (relation "measure (\<lambda>(U, r, p, s). length s)") (auto dest: shorter)
qed

declare findall_from.simps [simp del]

definition findall :: "runtime \<Rightarrow> regex \<Rightarrow> pystr \<Rightarrow> pystr list" where
  "findall U r s = findall_from U r None s"

text \<open>\<^verbatim>\<open>re.sub(pattern, repl, text)\<close> with a constant replacement: the same scan.\<close>

function sub_from :: "runtime \<Rightarrow> regex \<Rightarrow> pystr \<Rightarrow> nat option \<Rightarrow> pystr \<Rightarrow> pystr" where
  "sub_from U r repl p s =
     (case rmatch U r p s of
        [] \<Rightarrow> (case s of [] \<Rightarrow> [] | c # t \<Rightarrow> c # sub_from U r repl (Some c) t)
      | (m, r') # _ \<Rightarrow>
          (if m = [] then (case s of [] \<Rightarrow> repl | c # t \<Rightarrow> repl @ c # sub_from U r repl (Some c) t)
           else repl @ sub_from U r repl (Some (last m)) r'))"
  by pat_completeness auto
termination
proof -
  have split: "(m, r') \<in> set (rmatch U r p s) \<Longrightarrow> s = m @ r'" for U r p s m r'
  proof (induction r arbitrary: p s m r')
    case (Cat a b)
    from Cat.prems obtain m1 r1 m2 where a: "(m1, r1) \<in> set (rmatch U a p s)"
      and b: "(m2, r') \<in> set (rmatch U b (prev_after p m1) r1)" and m: "m = m1 @ m2"
      by auto
    from Cat.IH(1)[OF a] Cat.IH(2)[OF b] m show ?case by simp
  qed (auto split: list.splits if_splits)
  have shorter: "rmatch U r p s = (m, r') # rest \<Longrightarrow> m \<noteq> [] \<Longrightarrow> length r' < length s"
    for U r p s m r' rest
    using split [of m r' U r p s] by (cases m) auto
  show ?thesis
    by (relation "measure (\<lambda>(U, r, repl, p, s). length s)") (auto dest: shorter)
qed

declare sub_from.simps [simp del]

definition re_sub :: "runtime \<Rightarrow> regex \<Rightarrow> pystr \<Rightarrow> pystr \<Rightarrow> pystr" where
  "re_sub U r repl s = sub_from U r repl None s"

section \<open>The text normalizer\<close>

text \<open>
  A field of a record as the record source delivers it: \<^verbatim>\<open>None\<close>, a string, or any other
  value, which carries the text that \<^verbatim>\<open>str()\<close> makes of it.
\<close>

datatype pyval = PyNone | PyStr pystr | PyOther pystr

text \<open>
  \<^verbatim>\<open>_clean_text\<close> of \<^verbatim>\<open>adi.py\<close>. The label pattern is
  \<^verbatim>\<open>^\s*(Abstract|Introduction)\s*[:\n\r\-]*\s*\<close> and the whitespace pattern is \<^verbatim>\<open>\s+\<close>.
\<close>

definition label_pattern :: regex where
  "label_pattern =
     Cat Bol (Cat (Many Space) (Cat (Alt (lits (asc ''Abstract'')) (lits (asc ''Introduction'')))
       (Cat (Many Space) (Cat (Many (OneOf [58, 10, 13, 45])) (Many Space)))))"

definition strip_quotes :: "pystr \<Rightarrow> pystr" where
  "strip_quotes t =
     (if (starts_with [34] t \<and> starts_with [34] (rev t)) \<or> (starts_with [39] t \<and> starts_with [39] (rev t))
      then butlast (tl t) else t)"

definition clean_text :: "runtime \<Rightarrow> pyval \<Rightarrow> pystr" where
  "clean_text U s =
     (case s of
        PyNone \<Rightarrow> []
      | PyStr t \<Rightarrow> py_strip (re_sub U (Many1 Space) [32] (strip_quotes (re_sub U label_pattern [] t)))
      | PyOther t \<Rightarrow> py_strip (re_sub U (Many1 Space) [32] (strip_quotes (re_sub U label_pattern [] t))))"

section \<open>The graph\<close>

text \<open>
  A \<^verbatim>\<open>networkx.Graph\<close>: a dictionary from node key to attribute dictionary, in insertion
  order, and a set of undirected edges, kept as the list of pairs in the order in which
  they were first added. The four attributes the program sets are the fields of \<open>attrs\<close>;
  a node that \<^verbatim>\<open>add_edge\<close> creates has none of them.
\<close>

record attrs =
  ntype :: "string option"
  ncolor :: "string option"
  nsize :: "int option"
  nlabel :: "pystr option"

record graph =
  nodes :: "(pystr \<times> attrs) list"
  edges :: "(pystr \<times> pystr) list"

definition empty_graph :: graph where
  "empty_graph = \<lparr>nodes = [], edges = []\<rparr>"

definition no_attrs :: attrs where
  "no_attrs = \<lparr>ntype = None, ncolor = None, nsize = None, nlabel = None\<rparr>"

definition has_node :: "pystr \<Rightarrow> graph \<Rightarrow> bool" where
  "has_node n G = (n \<in> set (map fst (nodes G)))"

definition has_edge :: "pystr \<Rightarrow> pystr \<Rightarrow> graph \<Rightarrow> bool" where
  "has_edge u v G = ((u, v) \<in> set (edges G) \<or> (v, u) \<in> set (edges G))"

text \<open>
  \<^verbatim>\<open>G.add_node(n, type=.., color=.., size=.., label=..)\<close>: a new key is appended, an existing
  one keeps its place and has the four attributes overwritten.
\<close>

definition add_node :: "pystr \<Rightarrow> string \<Rightarrow> string \<Rightarrow> int \<Rightarrow> pystr \<Rightarrow> graph \<Rightarrow> graph" where
  "add_node n ty col sz lab G =
     G\<lparr>nodes := AList.update n \<lparr>ntype = Some ty, ncolor = Some col, nsize = Some sz, nlabel = Some lab\<rparr> (nodes G)\<rparr>"

definition ensure_node :: "pystr \<Rightarrow> graph \<Rightarrow> graph" where
  "ensure_node n G = (if has_node n G then G else G\<lparr>nodes := nodes G @ [(n, no_attrs)]\<rparr>)"

text \<open>\<^verbatim>\<open>G.add_edge(u, v)\<close>: creates missing end points; an edge that exists is not added again.\<close>

definition add_edge :: "pystr \<Rightarrow> pystr \<Rightarrow> graph \<Rightarrow> graph" where
  "add_edge u v G =
     (let G1 = ensure_node v (ensure_node u G)
      in if has_edge u v G1 then G1 else G1\<lparr>edges := edges G1 @ [(u, v)]\<rparr>)"

definition neighbors :: "graph \<Rightarrow> pystr \<Rightarrow> pystr list" where
  "neighbors G n =
     concat (map (\<lambda>(u, v). if u = n then [v] else if v = n then [u] else []) (edges G))"

text \<open>\<^verbatim>\<open>G.degree(n)\<close>: the number of neighbours, a self-loop counting twice.\<close>

definition degree :: "graph \<Rightarrow> pystr \<Rightarrow> nat" where
  "degree G n = length (neighbors G n) + (if (n, n) \<in> set (edges G) then 1 else 0)"

text \<open>
  \<^verbatim>\<open>G.subgraph(ns)\<close> is a read-only view of \<open>G\<close>. networkx keeps the set
  \<^verbatim>\<open>set(G.nbunch_iter(ns))\<close> of the members of \<open>ns\<close> that are nodes of \<open>G\<close>; the nodes of the
  view are the nodes of \<open>G\<close> in that set, its edges the edges of \<open>G\<close> between them.
  Iterating the nodes of the view (\<^verbatim>\<open>FilterAtlas.__iter__\<close>) follows the node order of \<open>G\<close>,
  unless twice the size of the set is less than the number of nodes of \<open>G\<close>: then networkx
  iterates the set itself, in the order the runtime gives it. The edge list of the model
  stands for a set of edges: its order is not the order in which \<^verbatim>\<open>G.edges()\<close> iterates.
\<close>

definition kept_nodes :: "graph \<Rightarrow> pystr list \<Rightarrow> pystr list" where
  "kept_nodes G ns = filter (\<lambda>n. has_node n G) ns"

definition view_nodes :: "runtime \<Rightarrow> graph \<Rightarrow> pystr list \<Rightarrow> (pystr \<times> attrs) list" where
  "view_nodes U G ns =
     (let kept = kept_nodes G ns in
      if 2 * length (remdups kept) < length (nodes G)
      then concat (map (\<lambda>n. case map_of (nodes G) n of None \<Rightarrow> [] | Some d \<Rightarrow> [(n, d)]) (pyset U kept))
      else filter (\<lambda>(n, d). n \<in> set kept) (nodes G))"

definition subgraph :: "runtime \<Rightarrow> graph \<Rightarrow> pystr list \<Rightarrow> graph" where
  "subgraph U G ns =
     \<lparr>nodes = view_nodes U G ns,
      edges = filter (\<lambda>(u, v). u \<in> set (kept_nodes G ns) \<and> v \<in> set (kept_nodes G ns)) (edges G)\<rparr>"

section \<open>Graph assembly in \<^verbatim>\<open>adi.py\<close>\<close>

text \<open>
  The record source maps document identifiers to documents. A dictionary is an
  association list in insertion order; a document is a dictionary of fields or some other
  value.
\<close>

datatype rawdoc = RawOther | RawDict "(pystr \<times> pyval) list"

datatype jdoc = NotDict | Dict "(pystr \<times> pystr) list"

text \<open>\<^verbatim>\<open>doc.get(key, '')\<close> on a raw document and on a document with string fields.\<close>

definition raw_get :: "(pystr \<times> pyval) list \<Rightarrow> pystr \<Rightarrow> pyval" where
  "raw_get d k = (case map_of d k of None \<Rightarrow> PyStr [] | Some v \<Rightarrow> v)"

definition doc_get :: "(pystr \<times> pystr) list \<Rightarrow> pystr \<Rightarrow> pystr" where
  "doc_get d k = (case map_of d k of None \<Rightarrow> [] | Some v \<Rightarrow> v)"

text \<open>
  The normalisation of the loaded JSON (the loop over \<^verbatim>\<open>data.items()\<close> that fills
  \<^verbatim>\<open>clean_data\<close>): documents that are not dictionaries are dropped, the four fields of the
  others are cleaned.
\<close>

definition clean_doc :: "runtime \<Rightarrow> (pystr \<times> pyval) list \<Rightarrow> jdoc" where
  "clean_doc U d =
     Dict [(asc ''Title'', clean_text U (raw_get d (asc ''Title''))),
           (asc ''Abstract'', clean_text U (raw_get d (asc ''Abstract''))),
           (asc ''Introduction'', clean_text U (raw_get d (asc ''Introduction''))),
           (asc ''Link'', clean_text U (raw_get d (asc ''Link'')))]"

definition clean_data :: "runtime \<Rightarrow> (pystr \<times> rawdoc) list \<Rightarrow> (pystr \<times> jdoc) list" where
  "clean_data U data =
     fold (\<lambda>(k, doc) acc. case doc of RawOther \<Rightarrow> acc | RawDict d \<Rightarrow> AList.update k (clean_doc U d) acc)
          data []"

definition type_colors :: "(string \<times> string) list" where
  "type_colors =
     [(''Publication'', ''#ff6f61''), (''Mission'', ''#9e9ac8''), (''Keyword'', ''#74c476''),
      (''Organism'', ''#6baed6''), (''Location'', ''#fdae6b'')]"

text \<open>
  \<^verbatim>\<open>type_colors[t]\<close>. The program subscripts the dictionary with four literal keys, all
  present.
\<close>

definition type_color :: "string \<Rightarrow> string" where
  "type_color t = the (map_of type_colors t)"

definition mission_pattern :: regex where
  "mission_pattern =
     Cat WordB (Cat (alts
       [Cat (lits (asc ''Bion-M'')) (Cat (Maybe (Atom Space)) (Many1 Digit)),
        Cat (lits (asc ''STS-'')) (Many1 Digit),
        lits (asc ''ISS''),
        lits (asc ''International Space Station''),
        lits (asc ''Space Shuttle''),
        Cat (lits (asc ''Spacelab'')) (Cat (Maybe (Atom (Lit 45))) (Many Digit)),
        lits (asc ''NeuroLab'')]) WordB)"

definition keywords_dict :: "(pystr \<times> pystr) list" where
  "keywords_dict =
     [(asc ''microgravity'', asc ''Microgravity''),
      (asc ''bone'', asc ''Bone''),
      (asc ''muscle'', asc ''Muscle''),
      (asc ''cardiovascular'', asc ''Cardiovascular''),
      (asc ''radiation'', asc ''Radiation''),
      (asc ''oxidative stress'', asc ''Oxidative Stress''),
      (asc ''cell cycle'', asc ''Cell Cycle''),
      (asc ''stem cell'', asc ''Stem Cells''),
      (asc ''osteoblast'', asc ''Osteoblasts''),
      (asc ''spaceflight'', asc ''Spaceflight''),
      (asc ''immune'', asc ''Immune System''),
      (asc ''gene expression'', asc ''Gene Expression'')]"

definition organism_pattern :: regex where
  "organism_pattern =
     Cat WordB (Cat (alts
       [lits (asc ''mice''),
        lits (asc ''mouse''),
        lits (asc ''Mus musculus''),
        lits (asc ''rats''),
        lits (asc ''human''),
        lits (asc ''Homo sapiens''),
        Cat (lits (asc ''C57BL/6'')) (Maybe (Atom (Lit 74)))]) WordB)"

definition organism_mapping :: "(pystr \<times> pystr) list" where
  "organism_mapping =
     [(asc ''mice'', asc ''Mice''), (asc ''mouse'', asc ''Mice''), (asc ''mus musculus'', asc ''Mice''),
      (asc ''rats'', asc ''Rats''), (asc ''human'', asc ''Humans''), (asc ''homo sapiens'', asc ''Humans''),
      (asc ''c57bl/6j'', asc ''Mice''), (asc ''c57bl/6'', asc ''Mice'')]"

text \<open>
  The three extractions of the loop body. Missions: the distinct matches in the
  introduction, each stripped. Keywords: the labels of the lexicon entries whose phrase
  occurs in the lowered title and abstract, in the order of the lexicon. Organisms: the
  distinct matches in introduction and abstract, each looked up by its lower case, with
  the title-cased match as the default of \<^verbatim>\<open>organism_mapping.get\<close>.
\<close>

definition mission_labels :: "runtime \<Rightarrow> pystr \<Rightarrow> pystr list" where
  "mission_labels U intro = map py_strip (pyset U (findall U mission_pattern intro))"

definition keyword_labels :: "pystr \<Rightarrow> pystr \<Rightarrow> pystr list" where
  "keyword_labels title abstract =
     (let combined_text = py_lower (title @ asc '' '' @ abstract)
      in map snd (filter (\<lambda>(keyword_search, keyword_label). contains keyword_search combined_text) keywords_dict))"

definition org_label :: "pystr \<Rightarrow> pystr" where
  "org_label org = (case map_of organism_mapping (py_lower org) of Some l \<Rightarrow> l | None \<Rightarrow> py_title org)"

definition organism_labels :: "runtime \<Rightarrow> pystr \<Rightarrow> pystr \<Rightarrow> pystr list" where
  "organism_labels U intro abstract =
     map org_label (pyset U (findall U organism_pattern (intro @ asc '' '' @ abstract)))"

text \<open>
  \<^verbatim>\<open>G.add_node(label, type=t, color=type_colors[t], size=sz, label=label)\<close> followed by
  \<^verbatim>\<open>G.add_edge(pub_id, label)\<close>, the body of each of the three inner loops.
\<close>

definition add_entity :: "pystr \<Rightarrow> string \<Rightarrow> int \<Rightarrow> pystr \<Rightarrow> graph \<Rightarrow> graph" where
  "add_entity pub_id ty sz lab G = add_edge pub_id lab (add_node lab ty (type_color ty) sz lab G)"

text \<open>The body of the loop over \<^verbatim>\<open>data.items()\<close> in \<^verbatim>\<open>load_graph_data\<close>.\<close>

definition add_document :: "runtime \<Rightarrow> pystr \<times> jdoc \<Rightarrow> graph \<Rightarrow> graph" where
  "add_document U entry G =
     (case entry of (doc_id, doc) \<Rightarrow>
        (case doc of
           NotDict \<Rightarrow> G
         | Dict d \<Rightarrow>
             (let title = doc_get d (asc ''Title'') in
              if title = [] \<or> length title < 5 then G
              else
                (let pub_id = asc ''pub_'' @ doc_id;
                     G1 = add_node pub_id ''Publication'' (type_color ''Publication'') 18 (take 100 title) G;
                     intro = doc_get d (asc ''Introduction'');
                     G2 = (if intro \<noteq> []
                           then fold (add_entity pub_id ''Mission'' 14) (mission_labels U intro) G1
                           else G1);
                     abstract = doc_get d (asc ''Abstract'');
                     G3 = fold (add_entity pub_id ''Keyword'' 10) (keyword_labels title abstract) G2
                 in fold (add_entity pub_id ''Organism'' 12) (organism_labels U intro abstract) G3))))"

definition build_graph :: "runtime \<Rightarrow> (pystr \<times> jdoc) list \<Rightarrow> graph" where
  "build_graph U data = fold (add_document U) data empty_graph"

text \<open>Normalisation followed by the loop: the graph that \<^verbatim>\<open>load_graph_data\<close> returns.\<close>

definition load_graph_data :: "runtime \<Rightarrow> (pystr \<times> rawdoc) list \<Rightarrow> graph" where
  "load_graph_data U data = build_graph U (clean_data U data)"

section \<open>View selection in \<^verbatim>\<open>adi.py\<close>\<close>

text \<open>
  The module-level code after the sidebar controls, with the graph \<^verbatim>\<open>full_G\<close>, the list
  \<^verbatim>\<open>selected_types\<close> and the slider value \<^verbatim>\<open>max_pubs\<close> as arguments.
\<close>

definition pub_nodes_all :: "graph \<Rightarrow> pystr list" where
  "pub_nodes_all full_G = map fst (filter (\<lambda>(n, d). ntype d = Some ''Publication'') (nodes full_G))"

definition nodes_to_consider :: "graph \<Rightarrow> pystr list" where
  "nodes_to_consider full_G = pub_nodes_all full_G @ concat (map (neighbors full_G) (pub_nodes_all full_G))"

definition sub_G :: "runtime \<Rightarrow> graph \<Rightarrow> graph" where
  "sub_G U full_G = subgraph U full_G (nodes_to_consider full_G)"

definition pubs_in_sub :: "runtime \<Rightarrow> graph \<Rightarrow> pystr list" where
  "pubs_in_sub U full_G = map fst (filter (\<lambda>(n, d). ntype d = Some ''Publication'') (nodes (sub_G U full_G)))"

text \<open>The slice \<^verbatim>\<open>xs[:n]\<close>; a negative \<open>n\<close> counts from the end.\<close>

definition slice_to :: "int \<Rightarrow> 'a list \<Rightarrow> 'a list" where
  "slice_to n xs = (if 0 \<le> n then take (nat n) xs else take (length xs - nat (- n)) xs)"

definition pubs_to_show :: "runtime \<Rightarrow> graph \<Rightarrow> string list \<Rightarrow> int \<Rightarrow> pystr list" where
  "pubs_to_show U full_G selected_types max_pubs =
     (if ''Publication'' \<in> set selected_types then slice_to max_pubs (pubs_in_sub U full_G) else [])"

definition keep_node :: "runtime \<Rightarrow> graph \<Rightarrow> string list \<Rightarrow> int \<Rightarrow> pystr \<times> attrs \<Rightarrow> bool" where
  "keep_node U full_G selected_types max_pubs entry =
     (case entry of (n, d) \<Rightarrow>
        (case ntype d of
           None \<Rightarrow> False
         | Some node_type \<Rightarrow>
             if node_type \<notin> set selected_types then False
             else if node_type = ''Publication'' then n \<in> set (pubs_to_show U full_G selected_types max_pubs)
             else True))"

definition final_nodes_to_keep :: "runtime \<Rightarrow> graph \<Rightarrow> string list \<Rightarrow> int \<Rightarrow> pystr list" where
  "final_nodes_to_keep U full_G selected_types max_pubs =
     map fst (filter (keep_node U full_G selected_types max_pubs) (nodes (sub_G U full_G)))"

text \<open>
  \<^verbatim>\<open>final_G = sub_G.subgraph(final_nodes_to_keep)\<close>. networkx does not chain views: the
  subgraph of the view \<^verbatim>\<open>sub_G\<close> is a view of \<^verbatim>\<open>full_G\<close>, whose set holds the members of the
  list that are nodes of \<^verbatim>\<open>sub_G\<close>.
\<close>

definition final_G :: "runtime \<Rightarrow> graph \<Rightarrow> string list \<Rightarrow> int \<Rightarrow> graph" where
  "final_G U full_G selected_types max_pubs =
     subgraph U full_G
       (filter (\<lambda>n. has_node n (sub_G U full_G)) (final_nodes_to_keep U full_G selected_types max_pubs))"

section \<open>Graph assembly in \<^verbatim>\<open>visualize.py\<close>\<close>

text \<open>
  \<^verbatim>\<open>visualize.py\<close> has its own copy of the tables, the patterns and the loop; they are
  translated from that file.
\<close>

definition type_colors_vis :: "(string \<times> string) list" where
  "type_colors_vis =
     [(''Publication'', ''#ff6f61''), (''Mission'', ''#9e9ac8''), (''Keyword'', ''#74c476''),
      (''Organism'', ''#6baed6''), (''Location'', ''#fdae6b'')]"

definition type_color_vis :: "string \<Rightarrow> string" where
  "type_color_vis t = the (map_of type_colors_vis t)"

definition mission_pattern_vis :: regex where
  "mission_pattern_vis =
     Cat WordB (Cat (alts
       [Cat (lits (asc ''Bion-M'')) (Cat (Maybe (Atom Space)) (Many1 Digit)),
        Cat (lits (asc ''STS-'')) (Many1 Digit),
        lits (asc ''ISS''),
        lits (asc ''International Space Station''),
        lits (asc ''Space Shuttle''),
        Cat (lits (asc ''Spacelab'')) (Cat (Maybe (Atom (Lit 45))) (Many Digit)),
        lits (asc ''NeuroLab'')]) WordB)"

definition keywords_vis :: "(pystr \<times> pystr) list" where
  "keywords_vis =
     [(asc ''microgravity'', asc ''Microgravity''),
      (asc ''bone'', asc ''Bone''),
      (asc ''muscle'', asc ''Muscle''),
      (asc ''cardiovascular'', asc ''Cardiovascular''),
      (asc ''radiation'', asc ''Radiation''),
      (asc ''oxidative stress'', asc ''Oxidative Stress''),
      (asc ''cell cycle'', asc ''Cell Cycle''),
      (asc ''stem cell'', asc ''Stem Cells''),
      (asc ''osteoblast'', asc ''Osteoblasts''),
      (asc ''spaceflight'', asc ''Spaceflight''),
      (asc ''immune'', asc ''Immune System''),
      (asc ''gene expression'', asc ''Gene Expression'')]"

definition organism_pattern_vis :: regex where
  "organism_pattern_vis =
     Cat WordB (Cat (alts
       [lits (asc ''mice''),
        lits (asc ''mouse''),
        lits (asc ''Mus musculus''),
        lits (asc ''rats''),
        lits (asc ''human''),
        lits (asc ''Homo sapiens''),
        Cat (lits (asc ''C57BL/6'')) (Maybe (Atom (Lit 74)))]) WordB)"

definition organism_mapping_vis :: "(pystr \<times> pystr) list" where
  "organism_mapping_vis =
     [(asc ''mice'', asc ''Mice''), (asc ''mouse'', asc ''Mice''), (asc ''mus musculus'', asc ''Mice''),
      (asc ''rats'', asc ''Rats''), (asc ''human'', asc ''Humans''), (asc ''homo sapiens'', asc ''Humans''),
      (asc ''c57bl/6j'', asc ''Mice''), (asc ''c57bl/6'', asc ''Mice'')]"

definition mission_labels_vis :: "runtime \<Rightarrow> pystr \<Rightarrow> pystr list" where
  "mission_labels_vis U intro = map py_strip (pyset U (findall U mission_pattern_vis intro))"

definition keyword_labels_vis :: "pystr \<Rightarrow> pystr \<Rightarrow> pystr list" where
  "keyword_labels_vis title abstract =
     (let combined_text = py_lower (title @ asc '' '' @ abstract)
      in map snd (filter (\<lambda>(keyword_search, keyword_label). contains keyword_search combined_text) keywords_vis))"

definition org_label_vis :: "pystr \<Rightarrow> pystr" where
  "org_label_vis org = (case map_of organism_mapping_vis (py_lower org) of Some l \<Rightarrow> l | None \<Rightarrow> py_title org)"

definition organism_labels_vis :: "runtime \<Rightarrow> pystr \<Rightarrow> pystr \<Rightarrow> pystr list" where
  "organism_labels_vis U intro abstract =
     map org_label_vis (pyset U (findall U organism_pattern_vis (intro @ asc '' '' @ abstract)))"

definition add_entity_vis :: "pystr \<Rightarrow> string \<Rightarrow> int \<Rightarrow> pystr \<Rightarrow> graph \<Rightarrow> graph" where
  "add_entity_vis pub_id ty sz lab G = add_edge pub_id lab (add_node lab ty (type_color_vis ty) sz lab G)"

definition add_document_vis :: "runtime \<Rightarrow> pystr \<times> jdoc \<Rightarrow> graph \<Rightarrow> graph" where
  "add_document_vis U entry G =
     (case entry of (doc_id, doc) \<Rightarrow>
        (case doc of
           NotDict \<Rightarrow> G
         | Dict d \<Rightarrow>
             (let title = doc_get d (asc ''Title'') in
              if title = [] \<or> length title < 5 then G
              else
                (let pub_id = asc ''pub_'' @ doc_id;
                     G1 = add_node pub_id ''Publication'' (type_color_vis ''Publication'') 18 (take 100 title) G;
                     intro = doc_get d (asc ''Introduction'');
                     G2 = (if intro \<noteq> []
                           then fold (add_entity_vis pub_id ''Mission'' 14) (mission_labels_vis U intro) G1
                           else G1);
                     abstract = doc_get d (asc ''Abstract'');
                     G3 = fold (add_entity_vis pub_id ''Keyword'' 10) (keyword_labels_vis title abstract) G2
                 in fold (add_entity_vis pub_id ''Organism'' 12) (organism_labels_vis U intro abstract) G3))))"

definition build_graph_vis :: "runtime \<Rightarrow> (pystr \<times> jdoc) list \<Rightarrow> graph" where
  "build_graph_vis U data = fold (add_document_vis U) data empty_graph"

section \<open>Auxiliary notions for the proofs\<close>

text \<open>
  A runtime for closed examples: the Unicode tables of Python 3.11 up to U+02C1 (no decimal
  digit and these alphanumerics beyond ASCII), nothing beyond, and sets iterated in the
  order of insertion.
\<close>

definition runtime0 :: runtime where
  "runtime0 =
     \<lparr>uni_decimal = (\<lambda>c. False),
      uni_alnum = (\<lambda>c. c \<in> set [170, 178, 179, 181, 185, 186] \<or> (188 \<le> c \<and> c \<le> 190)
                     \<or> (192 \<le> c \<and> c \<le> 214) \<or> (216 \<le> c \<and> c \<le> 246) \<or> (248 \<le> c \<and> c \<le> 705)),
      set_order = (\<lambda>xs. xs)\<rparr>"

text \<open>The texts a pattern can match, whatever the context: the anchors match the empty text.\<close>

fun lang :: "runtime \<Rightarrow> regex \<Rightarrow> pystr set" where
  "lang U Eps = {[]}"
| "lang U (Atom cl) = {[c] | c. in_class U cl c}"
| "lang U (Many cl) = {m. \<forall>c \<in> set m. in_class U cl c}"
| "lang U (Many1 cl) = {m. m \<noteq> [] \<and> (\<forall>c \<in> set m. in_class U cl c)}"
| "lang U (Maybe r) = insert [] (lang U r)"
| "lang U (Cat a b) = {m1 @ m2 | m1 m2. m1 \<in> lang U a \<and> m2 \<in> lang U b}"
| "lang U (Alt a b) = lang U a \<union> lang U b"
| "lang U Bol = {[]}"
| "lang U WordB = {[]}"

text \<open>
  What one document writes into the graph: the node entries in the order in which
  \<^verbatim>\<open>add_node\<close> is called, and the edges in the order in which \<^verbatim>\<open>add_edge\<close> is called.
\<close>

definition entity_attrs :: "string \<Rightarrow> int \<Rightarrow> pystr \<Rightarrow> attrs" where
  "entity_attrs ty sz lab = \<lparr>ntype = Some ty, ncolor = Some (type_color ty), nsize = Some sz, nlabel = Some lab\<rparr>"

definition accepted :: "jdoc \<Rightarrow> bool" where
  "accepted doc = (case doc of NotDict \<Rightarrow> False | Dict d \<Rightarrow> 5 \<le> length (doc_get d (asc ''Title'')))"

definition doc_entities :: "runtime \<Rightarrow> jdoc \<Rightarrow> (string \<times> int \<times> pystr) list" where
  "doc_entities U doc =
     (case doc of
        NotDict \<Rightarrow> []
      | Dict d \<Rightarrow>
          map (\<lambda>l. (''Mission'', 14, l)) (mission_labels U (doc_get d (asc ''Introduction'')))
          @ map (\<lambda>l. (''Keyword'', 10, l)) (keyword_labels (doc_get d (asc ''Title'')) (doc_get d (asc ''Abstract'')))
          @ map (\<lambda>l. (''Organism'', 12, l))
              (organism_labels U (doc_get d (asc ''Introduction'')) (doc_get d (asc ''Abstract''))))"

definition doc_writes :: "runtime \<Rightarrow> pystr \<times> jdoc \<Rightarrow> (pystr \<times> attrs) list" where
  "doc_writes U entry =
     (case entry of (doc_id, doc) \<Rightarrow>
        if accepted doc
        then (asc ''pub_'' @ doc_id,
              entity_attrs ''Publication'' 18 (take 100 (case doc of Dict d \<Rightarrow> doc_get d (asc ''Title'') | NotDict \<Rightarrow> [])))
             # map (\<lambda>(ty, sz, l). (l, entity_attrs ty sz l)) (doc_entities U doc)
        else [])"

definition doc_links :: "runtime \<Rightarrow> pystr \<times> jdoc \<Rightarrow> (pystr \<times> pystr) list" where
  "doc_links U entry =
     (case entry of (doc_id, doc) \<Rightarrow>
        if accepted doc then map (\<lambda>(ty, sz, l). (asc ''pub_'' @ doc_id, l)) (doc_entities U doc) else [])"

definition put_edge :: "pystr \<times> pystr \<Rightarrow> (pystr \<times> pystr) list \<Rightarrow> (pystr \<times> pystr) list" where
  "put_edge e es = (case e of (u, v) \<Rightarrow> if (u, v) \<in> set es \<or> (v, u) \<in> set es then es else es @ [(u, v)])"

definition put_node :: "pystr \<times> attrs \<Rightarrow> (pystr \<times> attrs) list \<Rightarrow> (pystr \<times> attrs) list" where
  "put_node e ns = (case e of (k, a) \<Rightarrow> AList.update k a ns)"

text \<open>
  A small record set for examples: three accepted documents, the first mentioning the ISS
  in its introduction, the third mentioning bone in its abstract, and the graph that the
  loop builds from them.
\<close>

definition example_data :: "(pystr \<times> jdoc) list" where
  "example_data =
     [(asc ''1'', Dict [(asc ''Title'', asc ''Alpha study''), (asc ''Introduction'', asc ''Flown on the ISS.'')]),
      (asc ''2'', Dict [(asc ''Title'', asc ''Beta study'')]),
      (asc ''3'', Dict [(asc ''Title'', asc ''Gamma study''), (asc ''Abstract'', asc ''bone loss'')])]"

definition example_graph :: graph where
  "example_graph =
     \<lparr>nodes =
        [(asc ''pub_1'', \<lparr>ntype = Some ''Publication'', ncolor = Some ''#ff6f61'', nsize = Some 18, nlabel = Some (asc ''Alpha study'')\<rparr>),
         (asc ''ISS'', \<lparr>ntype = Some ''Mission'', ncolor = Some ''#9e9ac8'', nsize = Some 14, nlabel = Some (asc ''ISS'')\<rparr>),
         (asc ''pub_2'', \<lparr>ntype = Some ''Publication'', ncolor = Some ''#ff6f61'', nsize = Some 18, nlabel = Some (asc ''Beta study'')\<rparr>),
         (asc ''pub_3'', \<lparr>ntype = Some ''Publication'', ncolor = Some ''#ff6f61'', nsize = Some 18, nlabel = Some (asc ''Gamma study'')\<rparr>),
         (asc ''Bone'', \<lparr>ntype = Some ''Keyword'', ncolor = Some ''#74c476'', nsize = Some 10, nlabel = Some (asc ''Bone'')\<rparr>)],
      edges = [(asc ''pub_1'', asc ''ISS''), (asc ''pub_3'', asc ''Bone'')]\<rparr>"

text \<open>The words of the organism pattern, with and without its optional last letter.\<close>

definition org_words :: "pystr list" where
  "org_words = [asc ''mice'', asc ''mouse'', asc ''Mus musculus'', asc ''rats'', asc ''human'',
                asc ''Homo sapiens'', asc ''C57BL/6'', asc ''C57BL/6J'']"

section \<open>Evaluation\<close>

lemma pyset_set: "set (pyset U xs) = set xs"
  by (auto simp: pyset_def Let_def)

lemma pyset_distinct: "distinct (pyset U xs)"
  by (auto simp: pyset_def Let_def)

lemma pyset_Nil: "pyset U [] = []"
  by (auto simp: pyset_def Let_def)

lemma pyset_single: "pyset U [x] = [x]"
proof -
  have "ys = [x]" if "distinct ys" "set ys = {x}" for ys :: "pystr list"
  proof (cases ys)
    case Nil with that show ?thesis by simp
  next
    case (Cons a as)
    with that have "a = x" by auto
    moreover have "as = []"
    proof (cases as)
      case (Cons b bs)
      with that \<open>ys = a # as\<close> \<open>a = x\<close> show ?thesis by auto
    qed simp
    ultimately show ?thesis using Cons by simp
  qed
  then show ?thesis by (auto simp: pyset_def Let_def)
qed

lemmas ev = findall_def findall_from.simps sub_from.simps re_sub_def mission_pattern_def organism_pattern_def
  label_pattern_def asc_def at_boundary_def
  prev_after_def is_word_def is_digit_def is_space_def lit_ic_def ascii_lower_def Let_def
  mission_labels_def organism_labels_def keyword_labels_def org_label_def py_strip_def py_lower_def lower_cp_def
  py_title_def title_cp_def is_cased_def keywords_dict_def organism_mapping_def clean_text_def strip_quotes_def
  pyset_Nil pyset_single

lemmas gv = build_graph_def add_document_def add_entity_def add_node_def add_edge_def ensure_node_def
  has_node_def has_edge_def empty_graph_def doc_get_def type_color_def type_colors_def
  load_graph_data_def clean_data_def clean_doc_def raw_get_def

lemma example_graph_built: "build_graph U example_data = example_graph"
proof -
  have m: "mission_labels U (asc ''Flown on the ISS.'') = [asc ''ISS'']" by (simp add: ev)
  have m0: "mission_labels U [] = []" by (simp add: ev)
  have k1: "keyword_labels (asc ''Alpha study'') [] = []" by (simp add: ev)
  have k2: "keyword_labels (asc ''Beta study'') [] = []" by (simp add: ev)
  have k3: "keyword_labels (asc ''Gamma study'') (asc ''bone loss'') = [asc ''Bone'']" by (simp add: ev)
  have o1: "organism_labels U (asc ''Flown on the ISS.'') [] = []" by (simp add: ev)
  have o2: "organism_labels U [] [] = []" by (simp add: ev)
  have o3: "organism_labels U [] (asc ''bone loss'') = []" by (simp add: ev)
  have f: "map_of [(asc ''Title'', t)] (asc ''Introduction'') = None"
          "map_of [(asc ''Title'', t)] (asc ''Abstract'') = None"
          "map_of [(asc ''Title'', t), (asc ''Introduction'', i)] (asc ''Abstract'') = None"
          "map_of [(asc ''Title'', t), (asc ''Abstract'', i)] (asc ''Introduction'') = None"
          "map_of [(asc ''Title'', t), (asc ''Introduction'', i)] (asc ''Introduction'') = Some i"
          "map_of [(asc ''Title'', t), (asc ''Abstract'', i)] (asc ''Abstract'') = Some i"
          "map_of ((asc ''Title'', t) # r) (asc ''Title'') = Some t" for t i :: pystr and r
    by (simp_all add: asc_def)
  show ?thesis
    unfolding example_data_def build_graph_def fold_simps add_document_def prod.case jdoc.case doc_get_def f option.case Let_def
      m m0 k1 k2 k3 o1 o2 o3
    by (simp add: gv example_graph_def asc_def)
qed

section \<open>The normalizer is total and yields normal text\<close>

lemma rmatch_split: "(m, r') \<in> set (rmatch U r p s) \<Longrightarrow> s = m @ r'"
proof (induction r arbitrary: p s m r')
  case (Cat a b)
  from Cat.prems obtain m1 r1 m2 where a: "(m1, r1) \<in> set (rmatch U a p s)"
    and b: "(m2, r') \<in> set (rmatch U b (prev_after p m1) r1)" and m: "m = m1 @ m2"
    by auto
  from Cat.IH(1)[OF a] Cat.IH(2)[OF b] m show ?case by simp
qed (auto split: list.splits if_splits)

lemma collapse_Nil: "sub_from U (Many1 Space) [32] p [] = []"
  by (simp add: sub_from.simps [of U "Many1 Space" "[32]" p "[]"])

lemma collapse_keep:
  assumes "\<not> is_space c"
  shows "sub_from U (Many1 Space) [32] p (c # t) = c # sub_from U (Many1 Space) [32] (Some c) t"
  using assms by (simp add: sub_from.simps [of U "Many1 Space" "[32]" p "c # t"])

lemma in_class_Space: "in_class U Space = is_space"
  by (rule ext) simp

lemma collapse_run:
  assumes "is_space c"
  shows "\<exists>q. sub_from U (Many1 Space) [32] p (c # t)
           = 32 # sub_from U (Many1 Space) [32] q (dropWhile is_space t)"
proof -
  let ?k = "length (takeWhile is_space t)"
  have k: "length (takeWhile (in_class U Space) (c # t)) = Suc ?k"
    using assms by (simp add: in_class_Space)
  have "[1 ..< Suc (Suc ?k)] = [1 ..< Suc ?k] @ [Suc ?k]"
    by (rule upt_Suc_append) simp
  then have "rev [1 ..< Suc (Suc ?k)] = Suc ?k # rev [1 ..< Suc ?k]"
    by (simp only: rev_append rev.simps append.simps)
  then have "rmatch U (Many1 Space) p (c # t)
      = (c # take ?k t, drop ?k t) # map (\<lambda>n. (take n (c # t), drop n (c # t))) (rev [1 ..< Suc ?k])"
    by (simp only: rmatch.simps k list.map take_Suc_Cons drop_Suc_Cons)
  moreover have "drop ?k t = dropWhile is_space t"
    by (simp add: dropWhile_eq_drop)
  ultimately have "rmatch U (Many1 Space) p (c # t)
      = (c # take ?k t, dropWhile is_space t) # map (\<lambda>n. (take n (c # t), drop n (c # t))) (rev [1 ..< Suc ?k])"
    by simp
  then show ?thesis
    by (subst sub_from.simps) (auto simp del: upt_Suc rmatch.simps)
qed

lemma collapse_hd:
  assumes "s = [] \<or> \<not> is_space (hd s)"
  shows "sub_from U (Many1 Space) [32] p s = [] \<or> \<not> is_space (hd (sub_from U (Many1 Space) [32] p s))"
proof (cases s)
  case Nil
  then show ?thesis by (simp add: collapse_Nil)
next
  case (Cons c t)
  with assms have "\<not> is_space c" by simp
  then show ?thesis by (simp add: Cons collapse_keep)
qed

lemma collapse_successively:
  "successively (\<lambda>a b. is_space a \<longrightarrow> \<not> is_space b) (sub_from U (Many1 Space) [32] p s)"
proof (induction "length s" arbitrary: s p rule: less_induct)
  case less
  show ?case
  proof (cases s)
    case Nil
    then show ?thesis by (simp add: collapse_Nil)
  next
    case (Cons c t)
    show ?thesis
    proof (cases "is_space c")
      case False
      have "successively (\<lambda>a b. is_space a \<longrightarrow> \<not> is_space b) (sub_from U (Many1 Space) [32] (Some c) t)"
        using less [of t "Some c"] Cons by simp
      with False show ?thesis
        by (simp add: Cons collapse_keep successively_Cons)
    next
      case True
      from collapse_run [OF True] obtain q where
        q: "sub_from U (Many1 Space) [32] p (c # t) = 32 # sub_from U (Many1 Space) [32] q (dropWhile is_space t)"
        by blast
      define w where "w = sub_from U (Many1 Space) [32] q (dropWhile is_space t)"
      have len: "length (dropWhile is_space t) < length s"
        using Cons by (simp add: length_dropWhile_le le_imp_less_Suc)
      have IH: "successively (\<lambda>a b. is_space a \<longrightarrow> \<not> is_space b) w"
        unfolding w_def using less [OF len] .
      have "dropWhile is_space t = [] \<or> \<not> is_space (hd (dropWhile is_space t))"
        using hd_dropWhile by blast
      then have "w = [] \<or> \<not> is_space (hd w)"
        unfolding w_def by (rule collapse_hd)
      with IH have "successively (\<lambda>a b. is_space a \<longrightarrow> \<not> is_space b) (32 # w)"
        by (auto simp: successively_Cons)
      then show ?thesis by (simp only: Cons q w_def)
    qed
  qed
qed

lemma py_strip_slice: "\<exists>a b. s = a @ py_strip s @ b"
proof -
  let ?u = "dropWhile is_space s"
  have "rev (rev ?u) = rev (takeWhile is_space (rev ?u) @ dropWhile is_space (rev ?u))"
    by (simp only: takeWhile_dropWhile_id)
  then have "?u = py_strip s @ rev (takeWhile is_space (rev ?u))"
    by (simp only: rev_rev_ident rev_append py_strip_def)
  moreover have "s = takeWhile is_space s @ ?u" by simp
  ultimately show ?thesis by metis
qed

lemma py_strip_ends:
  assumes "py_strip s \<noteq> []"
  shows "\<not> is_space (hd (py_strip s)) \<and> \<not> is_space (last (py_strip s))"
proof -
  let ?u = "dropWhile is_space s"
  let ?v = "dropWhile is_space (rev ?u)"
  from assms have v: "?v \<noteq> []" by (simp add: py_strip_def)
  have u: "?u \<noteq> []"
  proof
    assume e: "?u = []"
    have "?v = []" unfolding e by simp
    with v show False by simp
  qed
  have l: "\<not> is_space (hd ?v)" using v hd_dropWhile by blast
  have h: "\<not> is_space (hd ?u)" using u hd_dropWhile by blast
  have "last (py_strip s) = hd ?v" using v by (simp add: py_strip_def last_rev)
  moreover have "hd (py_strip s) = hd ?u"
  proof -
    have "rev ?u = takeWhile is_space (rev ?u) @ ?v" by simp
    then have "?u = rev ?v @ rev (takeWhile is_space (rev ?u))"
      by (metis rev_append rev_rev_ident)
    then show ?thesis using v by (metis hd_append2 py_strip_def rev_is_Nil_conv)
  qed
  ultimately show ?thesis using l h by simp
qed

lemma successively_nth:
  "successively P xs \<Longrightarrow> Suc i < length xs \<Longrightarrow> P (xs ! i) (xs ! Suc i)"
proof (induction xs arbitrary: i)
  case Nil then show ?case by simp
next
  case (Cons x xs)
  then show ?case by (cases i; cases xs) (auto simp: successively_Cons)
qed

lemma normal_clean:
  fixes t :: pystr and U :: runtime
  defines "r \<equiv> py_strip (re_sub U (Many1 Space) [32] t)"
  shows "(r \<noteq> [] \<longrightarrow> \<not> is_space (hd r) \<and> \<not> is_space (last r))
       \<and> (\<forall>i. Suc i < length r \<longrightarrow> \<not> (is_space (r ! i) \<and> is_space (r ! Suc i)))"
proof -
  let ?w = "re_sub U (Many1 Space) [32] t"
  have s: "successively (\<lambda>a b. is_space a \<longrightarrow> \<not> is_space b) ?w"
    by (simp add: re_sub_def collapse_successively)
  obtain a b where "?w = a @ r @ b" using py_strip_slice [of ?w] r_def by blast
  with s have "successively (\<lambda>a b. is_space a \<longrightarrow> \<not> is_space b) r"
    by (simp add: successively_append_iff)
  then show ?thesis
    using successively_nth py_strip_ends [of ?w] r_def by blast
qed

text \<open>
  C6. \<open>clean_text\<close> is a total function: the two scans of \<^verbatim>\<open>re.sub\<close> terminate on every
  string (the termination proofs of \<open>sub_from\<close>), and no step of \<^verbatim>\<open>_clean_text\<close> can raise.
  It maps \<^verbatim>\<open>None\<close> to the empty string, and for every value and every runtime the result
  neither starts nor ends with whitespace and has no two adjacent whitespace characters.
\<close>

theorem clean_text_normalized:
  "clean_text U PyNone = []
   \<and> (clean_text U v \<noteq> [] \<longrightarrow>
        \<not> is_space (hd (clean_text U v)) \<and> \<not> is_space (last (clean_text U v)))
   \<and> (\<forall>i. Suc i < length (clean_text U v) \<longrightarrow>
        \<not> (is_space (clean_text U v ! i) \<and> is_space (clean_text U v ! Suc i)))"
proof (cases v)
  case PyNone then show ?thesis by (simp add: clean_text_def)
next
  case (PyStr t) then show ?thesis using normal_clean [of U] by (simp add: clean_text_def)
next
  case (PyOther t) then show ?thesis using normal_clean [of U] by (simp add: clean_text_def)
qed

theorem clean_text_normalized_witness:
  "clean_text runtime0 (PyStr (asc ''  Abstract:  hello   world '')) = asc ''hello world''
   \<and> clean_text runtime0 (PyStr (asc ''  Abstract:  hello   world '')) \<noteq> []
   \<and> \<not> is_space (hd (clean_text runtime0 (PyStr (asc ''  Abstract:  hello   world ''))))
   \<and> \<not> is_space (last (clean_text runtime0 (PyStr (asc ''  Abstract:  hello   world ''))))
   \<and> Suc 5 < length (clean_text runtime0 (PyStr (asc ''  Abstract:  hello   world '')))
   \<and> \<not> (is_space (clean_text runtime0 (PyStr (asc ''  Abstract:  hello   world '')) ! 5)
        \<and> is_space (clean_text runtime0 (PyStr (asc ''  Abstract:  hello   world '')) ! Suc 5))"
proof -
  have e: "clean_text runtime0 (PyStr (asc ''  Abstract:  hello   world '')) = asc ''hello world''"
    by (simp add: ev)
  have n: "asc ''hello world'' \<noteq> []" and l: "Suc 5 < length (asc ''hello world'')"
    by (simp_all add: asc_def)
  from clean_text_normalized [of runtime0 "PyStr (asc ''  Abstract:  hello   world '')"] n l
  show ?thesis unfolding e by blast
qed

section \<open>View selection\<close>

lemma kept_has_node: "n \<in> set (kept_nodes G ns) \<longleftrightarrow> n \<in> set ns \<and> has_node n G"
  by (auto simp: kept_nodes_def)

lemma node_lookup:
  assumes "distinct (map fst (nodes G))"
  shows "map_of (nodes G) n = Some d \<longleftrightarrow> (n, d) \<in> set (nodes G)"
  using assms by simp

lemma set_view_nodes:
  assumes d: "distinct (map fst (nodes G))"
  shows "set (view_nodes U G ns) = {(k, a). (k, a) \<in> set (nodes G) \<and> k \<in> set ns}"
proof -
  let ?kept = "kept_nodes G ns"
  let ?f = "\<lambda>n. case map_of (nodes G) n of None \<Rightarrow> [] | Some d \<Rightarrow> [(n, d)]"
  have f: "set (?f n) = {(k, a). k = n \<and> (k, a) \<in> set (nodes G)}" for n
    using d by (auto split: option.splits)
  have a: "set (concat (map ?f (pyset U ?kept))) = {(k, a). (k, a) \<in> set (nodes G) \<and> k \<in> set ns}"
    unfolding set_concat set_map pyset_set
    by (auto simp: f kept_has_node has_node_def image_iff) force
  have b: "set (filter (\<lambda>(n, d). n \<in> set ?kept) (nodes G)) = {(k, a). (k, a) \<in> set (nodes G) \<and> k \<in> set ns}"
    by (auto simp: kept_has_node has_node_def image_iff) force
  show ?thesis
    unfolding view_nodes_def Let_def using a b by (simp del: set_concat set_map set_filter)
qed

lemma keys_view_nodes:
  assumes d: "distinct (map fst (nodes G))"
  shows "distinct (map fst (view_nodes U G ns))"
proof -
  let ?kept = "kept_nodes G ns"
  let ?f = "\<lambda>n. case map_of (nodes G) n of None \<Rightarrow> [] | Some d \<Rightarrow> [(n, d)]"
  have "map fst (concat (map ?f xs)) = xs" if "\<forall>n \<in> set xs. has_node n G" for xs
    using that
  proof (induction xs)
    case Nil show ?case by simp
  next
    case (Cons n xs)
    then have "n \<in> fst ` set (nodes G)" by (simp add: has_node_def)
    then obtain a where "map_of (nodes G) n = Some a"
      by (metis domD dom_map_of_conv_image_fst)
    with Cons show ?case by simp
  qed
  moreover have "\<forall>n \<in> set (pyset U ?kept). has_node n G"
    by (simp add: pyset_set kept_has_node)
  ultimately have "distinct (map fst (concat (map ?f (pyset U ?kept))))"
    by (simp add: pyset_distinct)
  moreover have "distinct (map fst (filter (\<lambda>(n, d). n \<in> set ?kept) (nodes G)))"
    using d by (rule distinct_map_filter)
  ultimately show ?thesis
    unfolding view_nodes_def Let_def by (simp del: map_concat)
qed

lemma nodes_subgraph: "nodes (subgraph U G ns) = view_nodes U G ns"
  by (simp add: subgraph_def)

lemma in_sub_G:
  assumes "distinct (map fst (nodes G))"
  shows "e \<in> set (nodes (sub_G U G)) \<longleftrightarrow> e \<in> set (nodes G) \<and> fst e \<in> set (nodes_to_consider G)"
  by (cases e) (simp add: sub_G_def nodes_subgraph set_view_nodes [OF assms])

lemma distinct_sub_G:
  "distinct (map fst (nodes G)) \<Longrightarrow> distinct (map fst (nodes (sub_G U G)))"
  by (simp add: sub_G_def nodes_subgraph keys_view_nodes)

lemma distinct_final_G:
  "distinct (map fst (nodes G)) \<Longrightarrow> distinct (map fst (nodes (final_G U G sel n)))"
  by (simp add: final_G_def nodes_subgraph keys_view_nodes)

lemma in_final_G:
  assumes d: "distinct (map fst (nodes G))"
  shows "e \<in> set (nodes (final_G U G sel n)) \<longleftrightarrow> e \<in> set (nodes (sub_G U G)) \<and> keep_node U G sel n e"
proof -
  obtain k a where e: "e = (k, a)" by (cases e)
  let ?keep = "filter (\<lambda>n. has_node n (sub_G U G)) (final_nodes_to_keep U G sel n)"
  have sub: "set (nodes (sub_G U G)) \<subseteq> set (nodes G)"
    using in_sub_G [OF d] by auto
  have "(k, a) \<in> set (nodes G) \<and> k \<in> set ?keep \<longleftrightarrow> (k, a) \<in> set (nodes (sub_G U G)) \<and> keep_node U G sel n (k, a)"
  proof
    assume l: "(k, a) \<in> set (nodes G) \<and> k \<in> set ?keep"
    then obtain b where b: "(k, b) \<in> set (nodes (sub_G U G))" "keep_node U G sel n (k, b)"
      by (auto simp: final_nodes_to_keep_def)
    from b(1) sub have "(k, b) \<in> set (nodes G)" by auto
    from eq_key_imp_eq_value [OF d this] l have "b = a" by simp
    with b show "(k, a) \<in> set (nodes (sub_G U G)) \<and> keep_node U G sel n (k, a)" by simp
  next
    assume r: "(k, a) \<in> set (nodes (sub_G U G)) \<and> keep_node U G sel n (k, a)"
    then have "k \<in> set (final_nodes_to_keep U G sel n)"
      by (force simp: final_nodes_to_keep_def)
    moreover from r have "has_node k (sub_G U G)" by (force simp: has_node_def)
    ultimately show "(k, a) \<in> set (nodes G) \<and> k \<in> set ?keep" using r sub by auto
  qed
  then show ?thesis
    by (simp add: e final_G_def nodes_subgraph set_view_nodes [OF d])
qed

lemma distinct_pubs_in_sub:
  "distinct (map fst (nodes G)) \<Longrightarrow> distinct (pubs_in_sub U G)"
  unfolding pubs_in_sub_def by (rule distinct_map_filter) (rule distinct_sub_G)

lemma view_publications:
  assumes d: "distinct (map fst (nodes G))" and sel: "''Publication'' \<in> set sel" and n: "0 \<le> n"
  shows "set (map fst (filter (\<lambda>(k, d). ntype d = Some ''Publication'') (nodes (final_G U G sel n))))
       = set (take (nat n) (pubs_in_sub U G))"
proof -
  have S: "pubs_to_show U G sel n = take (nat n) (pubs_in_sub U G)"
    using sel n by (simp add: pubs_to_show_def slice_to_def)
  have sub: "set (take (nat n) (pubs_in_sub U G)) \<subseteq> set (pubs_in_sub U G)"
    by (rule set_take_subset)
  show ?thesis
  proof (rule set_eqI, rule iffI)
    fix k assume "k \<in> set (map fst (filter (\<lambda>(k, d). ntype d = Some ''Publication'') (nodes (final_G U G sel n))))"
    then obtain a where "(k, a) \<in> set (nodes (final_G U G sel n))" "ntype a = Some ''Publication''"
      by auto
    then show "k \<in> set (take (nat n) (pubs_in_sub U G))"
      by (auto simp: in_final_G [OF d] keep_node_def S split: if_splits)
  next
    fix k assume k: "k \<in> set (take (nat n) (pubs_in_sub U G))"
    with sub have "k \<in> set (pubs_in_sub U G)" by blast
    then obtain a where a: "(k, a) \<in> set (nodes (sub_G U G))" "ntype a = Some ''Publication''"
      by (auto simp: pubs_in_sub_def)
    with k sel have "(k, a) \<in> set (nodes (final_G U G sel n))"
      by (simp add: in_final_G [OF d] keep_node_def S)
    with a(2) show "k \<in> set (map fst (filter (\<lambda>(k, d). ntype d = Some ''Publication'') (nodes (final_G U G sel n))))"
      by force
  qed
qed

lemmas vv = final_G_def subgraph_def view_nodes_def kept_nodes_def has_node_def pyset_def runtime0_def Let_def
  final_nodes_to_keep_def keep_node_def pubs_to_show_def slice_to_def pubs_in_sub_def sub_G_def
  nodes_to_consider_def pub_nodes_all_def neighbors_def example_graph_def entity_attrs_def
  type_color_def type_colors_def asc_def

text \<open>
  C4. For every runtime, every graph whose node dictionary has one entry per key and every
  cap that is not negative: if \<^verbatim>\<open>'Publication'\<close> is selected, the Publication nodes of
  \<^verbatim>\<open>final_G\<close> are, as a set, the first \<open>min max_pubs (number of Publication nodes)\<close> entries of
  \<^verbatim>\<open>pubs_in_sub\<close>, the Publication nodes of \<^verbatim>\<open>sub_G\<close> in the order in which \<^verbatim>\<open>sub_G\<close> is
  iterated, and there are exactly that many; every node of \<^verbatim>\<open>sub_G\<close> with a selected type
  other than Publication is kept; every node of \<^verbatim>\<open>final_G\<close> is a node of \<^verbatim>\<open>sub_G\<close> with
  a selected type; if \<^verbatim>\<open>'Publication'\<close> is not selected, \<^verbatim>\<open>final_G\<close> has no Publication node.
  Nothing is said about the order in which \<^verbatim>\<open>final_G\<close> itself is iterated, which is the
  runtime's when the view is small.
\<close>

theorem final_G_selection:
  assumes d: "distinct (map fst (nodes full_G))" and n: "0 \<le> max_pubs"
  shows "(''Publication'' \<in> set selected_types \<longrightarrow>
            set (map fst (filter (\<lambda>(k, d). ntype d = Some ''Publication'')
                            (nodes (final_G U full_G selected_types max_pubs))))
              = set (take (min (nat max_pubs) (length (pubs_in_sub U full_G))) (pubs_in_sub U full_G))
            \<and> length (filter (\<lambda>(k, d). ntype d = Some ''Publication'')
                            (nodes (final_G U full_G selected_types max_pubs)))
              = min (nat max_pubs) (length (pubs_in_sub U full_G)))
       \<and> (\<forall>(k, d) \<in> set (nodes (sub_G U full_G)). \<forall>t.
            ntype d = Some t \<and> t \<noteq> ''Publication'' \<and> t \<in> set selected_types
              \<longrightarrow> (k, d) \<in> set (nodes (final_G U full_G selected_types max_pubs)))
       \<and> (\<forall>(k, d) \<in> set (nodes (final_G U full_G selected_types max_pubs)).
            (k, d) \<in> set (nodes (sub_G U full_G)) \<and> (\<exists>t. ntype d = Some t \<and> t \<in> set selected_types))
       \<and> (''Publication'' \<notin> set selected_types \<longrightarrow>
            (\<forall>(k, d) \<in> set (nodes (final_G U full_G selected_types max_pubs)). ntype d \<noteq> Some ''Publication''))
       \<and> distinct (map fst (nodes (final_G U full_G selected_types max_pubs)))"
proof (intro conjI impI)
  let ?F = "final_G U full_G selected_types max_pubs"
  let ?P = "\<lambda>(k, d). ntype d = Some ''Publication''"
  assume sel: "''Publication'' \<in> set selected_types"
  have tk: "take (min (nat max_pubs) (length (pubs_in_sub U full_G))) (pubs_in_sub U full_G)
      = take (nat max_pubs) (pubs_in_sub U full_G)"
    by (simp add: min_def)
  from view_publications [OF d sel n]
  show eq: "set (map fst (filter ?P (nodes ?F)))
      = set (take (min (nat max_pubs) (length (pubs_in_sub U full_G))) (pubs_in_sub U full_G))"
    by (simp only: tk)
  have "distinct (map fst (filter ?P (nodes ?F)))"
    by (rule distinct_map_filter) (rule distinct_final_G [OF d])
  then have "card (set (map fst (filter ?P (nodes ?F)))) = length (map fst (filter ?P (nodes ?F)))"
    by (rule distinct_card)
  then have "length (filter ?P (nodes ?F)) = card (set (map fst (filter ?P (nodes ?F))))"
    by simp
  also have "\<dots> = card (set (take (nat max_pubs) (pubs_in_sub U full_G)))"
    by (simp only: eq tk)
  also have "\<dots> = length (take (nat max_pubs) (pubs_in_sub U full_G))"
    by (rule distinct_card) (rule distinct_take, rule distinct_pubs_in_sub [OF d])
  finally show "length (filter ?P (nodes ?F)) = min (nat max_pubs) (length (pubs_in_sub U full_G))"
    by (simp add: min.commute)
next
  show "\<forall>(k, d) \<in> set (nodes (sub_G U full_G)). \<forall>t.
            ntype d = Some t \<and> t \<noteq> ''Publication'' \<and> t \<in> set selected_types
              \<longrightarrow> (k, d) \<in> set (nodes (final_G U full_G selected_types max_pubs))"
    by (auto simp: in_final_G [OF d] keep_node_def)
next
  show "\<forall>(k, d) \<in> set (nodes (final_G U full_G selected_types max_pubs)).
            (k, d) \<in> set (nodes (sub_G U full_G)) \<and> (\<exists>t. ntype d = Some t \<and> t \<in> set selected_types)"
    by (auto simp: in_final_G [OF d] keep_node_def split: option.splits if_splits)
next
  assume "''Publication'' \<notin> set selected_types"
  then show "\<forall>(k, d) \<in> set (nodes (final_G U full_G selected_types max_pubs)). ntype d \<noteq> Some ''Publication''"
    by (auto simp: in_final_G [OF d] keep_node_def split: option.splits if_splits)
next
  show "distinct (map fst (nodes (final_G U full_G selected_types max_pubs)))"
    by (rule distinct_final_G [OF d])
qed

theorem final_G_selection_witness:
  "distinct (map fst (nodes example_graph)) \<and> (0::int) \<le> 1
   \<and> pubs_in_sub runtime0 example_graph = [asc ''pub_1'', asc ''pub_2'', asc ''pub_3'']
   \<and> set (map fst (filter (\<lambda>(k, d). ntype d = Some ''Publication'')
                  (nodes (final_G runtime0 example_graph [''Publication'', ''Keyword''] 1))))
       = {asc ''pub_1''}
   \<and> length (filter (\<lambda>(k, d). ntype d = Some ''Publication'')
                  (nodes (final_G runtime0 example_graph [''Publication'', ''Keyword''] 1))) = 1
   \<and> (asc ''Bone'', entity_attrs ''Keyword'' 10 (asc ''Bone''))
       \<in> set (nodes (final_G runtime0 example_graph [''Publication'', ''Keyword''] 1))
   \<and> set (map fst (nodes (final_G runtime0 example_graph [''Publication'', ''Keyword''] 1)))
       = {asc ''pub_1'', asc ''Bone''}"
proof -
  have h1: "distinct (map fst (nodes example_graph))"
    by (simp add: example_graph_def asc_def)
  have h2: "(0::int) \<le> 1" by simp
  have p: "pubs_in_sub runtime0 example_graph = [asc ''pub_1'', asc ''pub_2'', asc ''pub_3'']"
    by (simp add: vv)
  have b: "(asc ''Bone'', entity_attrs ''Keyword'' 10 (asc ''Bone'')) \<in> set (nodes (sub_G runtime0 example_graph))"
    by (simp add: vv)
  have t: "ntype (entity_attrs ''Keyword'' 10 (asc ''Bone'')) = Some ''Keyword''"
    by (simp add: entity_attrs_def)
  note sel = final_G_selection [OF h1 h2, of "[''Publication'', ''Keyword'']" runtime0]
  from sel have "set (map fst (filter (\<lambda>(k, d). ntype d = Some ''Publication'')
                  (nodes (final_G runtime0 example_graph [''Publication'', ''Keyword''] 1))))
       = {asc ''pub_1''}
     \<and> length (filter (\<lambda>(k, d). ntype d = Some ''Publication'')
                  (nodes (final_G runtime0 example_graph [''Publication'', ''Keyword''] 1))) = 1"
    by (simp add: p)
  moreover from sel b t have "(asc ''Bone'', entity_attrs ''Keyword'' 10 (asc ''Bone''))
       \<in> set (nodes (final_G runtime0 example_graph [''Publication'', ''Keyword''] 1))"
    by fastforce
  moreover have "set (map fst (nodes (final_G runtime0 example_graph [''Publication'', ''Keyword''] 1)))
       = {asc ''pub_1'', asc ''Bone''}"
    by (simp add: vv)
  ultimately show ?thesis using h1 h2 p by blast
qed

lemma in_neighbors: "v \<in> set (neighbors G n) \<longleftrightarrow> (n, v) \<in> set (edges G) \<or> (v, n) \<in> set (edges G)"
proof -
  have "v \<in> set (concat (map (\<lambda>(u, v). if u = n then [v] else if v = n then [u] else []) es))
      \<longleftrightarrow> (n, v) \<in> set es \<or> (v, n) \<in> set es" for es
    by (induction es) auto
  then show ?thesis by (simp add: neighbors_def)
qed

lemma degree_0: "degree G n = 0 \<longleftrightarrow> (\<forall>v. (n, v) \<notin> set (edges G) \<and> (v, n) \<notin> set (edges G))"
proof -
  have "neighbors G n = [] \<longleftrightarrow> set (neighbors G n) = {}" by simp
  also have "\<dots> \<longleftrightarrow> (\<forall>v. (n, v) \<notin> set (edges G) \<and> (v, n) \<notin> set (edges G))"
    by (auto simp: in_neighbors set_eq_iff)
  finally show ?thesis by (auto simp: degree_def)
qed

lemma edge_of_final_G:
  assumes "(u, v) \<in> set (edges (final_G U G sel n))"
  shows "(u, v) \<in> set (edges G) \<and> u \<in> set (final_nodes_to_keep U G sel n) \<and> v \<in> set (final_nodes_to_keep U G sel n)"
  using assms by (auto simp: final_G_def subgraph_def kept_has_node)

text \<open>
  C5. In a graph whose node dictionary has one entry per key, a node of \<^verbatim>\<open>sub_G\<close> with a
  selected type other than Publication is a node of \<^verbatim>\<open>final_G\<close>; if each of its neighbours
  is a Publication node that \<^verbatim>\<open>pubs_to_show\<close> leaves out, its degree in \<^verbatim>\<open>final_G\<close> is 0.
\<close>

theorem orphan_entity_kept:
  assumes d: "distinct (map fst (nodes full_G))"
    and e: "(n, a) \<in> set (nodes (sub_G U full_G))"
    and t: "ntype a = Some t" "t \<noteq> ''Publication''" "t \<in> set selected_types"
    and cut: "\<forall>v \<in> set (neighbors full_G n).
                v \<in> set (pub_nodes_all full_G) \<and> v \<notin> set (pubs_to_show U full_G selected_types max_pubs)"
  shows "(n, a) \<in> set (nodes (final_G U full_G selected_types max_pubs))
       \<and> degree (final_G U full_G selected_types max_pubs) n = 0"
proof
  show "(n, a) \<in> set (nodes (final_G U full_G selected_types max_pubs))"
    using e t by (simp add: in_final_G [OF d] keep_node_def)
next
  let ?keep = "final_nodes_to_keep U full_G selected_types max_pubs"
  have gone: "v \<notin> set ?keep" if v: "v \<in> set (neighbors full_G n)" for v
  proof
    assume "v \<in> set ?keep"
    then obtain b where b: "(v, b) \<in> set (nodes (sub_G U full_G))" "keep_node U full_G selected_types max_pubs (v, b)"
      by (auto simp: final_nodes_to_keep_def)
    from cut v have p: "v \<in> set (pub_nodes_all full_G)"
      and np: "v \<notin> set (pubs_to_show U full_G selected_types max_pubs)" by auto
    from p obtain c where c: "(v, c) \<in> set (nodes full_G)" "ntype c = Some ''Publication''"
      by (auto simp: pub_nodes_all_def)
    from b(1) have "(v, b) \<in> set (nodes full_G)"
      by (simp add: in_sub_G [OF d])
    from eq_key_imp_eq_value [OF d this c(1)] c(2) have "ntype b = Some ''Publication''" by simp
    with b(2) np show False
      by (auto simp: keep_node_def split: if_splits)
  qed
  have no: "(x, y) \<notin> set (edges (final_G U full_G selected_types max_pubs))" if xy: "x = n \<or> y = n" for x y
  proof
    assume "(x, y) \<in> set (edges (final_G U full_G selected_types max_pubs))"
    from edge_of_final_G [OF this] have E: "(x, y) \<in> set (edges full_G)" and kx: "x \<in> set ?keep" and ky: "y \<in> set ?keep"
      by simp_all
    from xy show False
    proof
      assume "x = n"
      with E have "y \<in> set (neighbors full_G n)" by (simp add: in_neighbors)
      from gone [OF this] ky show False by simp
    next
      assume "y = n"
      with E have "x \<in> set (neighbors full_G n)" by (simp add: in_neighbors)
      from gone [OF this] kx show False by simp
    qed
  qed
  have "(n, v) \<notin> set (edges (final_G U full_G selected_types max_pubs))
      \<and> (v, n) \<notin> set (edges (final_G U full_G selected_types max_pubs))" for v
    using no [of n v] no [of v n] by simp
  then show "degree (final_G U full_G selected_types max_pubs) n = 0"
    by (simp add: degree_0)
qed

theorem orphan_entity_kept_witness:
  "distinct (map fst (nodes example_graph))
   \<and> (asc ''Bone'', entity_attrs ''Keyword'' 10 (asc ''Bone'')) \<in> set (nodes (sub_G runtime0 example_graph))
   \<and> neighbors example_graph (asc ''Bone'') = [asc ''pub_3'']
   \<and> asc ''pub_3'' \<in> set (pub_nodes_all example_graph)
   \<and> pubs_to_show runtime0 example_graph [''Publication'', ''Keyword''] 2 = [asc ''pub_1'', asc ''pub_2'']
   \<and> (asc ''Bone'', entity_attrs ''Keyword'' 10 (asc ''Bone''))
       \<in> set (nodes (final_G runtime0 example_graph [''Publication'', ''Keyword''] 2))
   \<and> degree (final_G runtime0 example_graph [''Publication'', ''Keyword''] 2) (asc ''Bone'') = 0"
proof -
  have h1: "distinct (map fst (nodes example_graph))"
    by (simp add: example_graph_def asc_def)
  have b: "(asc ''Bone'', entity_attrs ''Keyword'' 10 (asc ''Bone'')) \<in> set (nodes (sub_G runtime0 example_graph))"
    by (simp add: vv)
  have t: "ntype (entity_attrs ''Keyword'' 10 (asc ''Bone'')) = Some ''Keyword''"
    "''Keyword'' \<noteq> ''Publication''" "''Keyword'' \<in> set [''Publication'', ''Keyword'']"
    by (simp_all add: entity_attrs_def)
  have n: "neighbors example_graph (asc ''Bone'') = [asc ''pub_3'']"
    by (simp add: example_graph_def neighbors_def asc_def)
  have a: "asc ''pub_3'' \<in> set (pub_nodes_all example_graph)"
    by (simp add: example_graph_def pub_nodes_all_def asc_def)
  have s: "pubs_to_show runtime0 example_graph [''Publication'', ''Keyword''] 2 = [asc ''pub_1'', asc ''pub_2'']"
    by (simp add: vv)
  have c: "\<forall>v \<in> set (neighbors example_graph (asc ''Bone'')).
      v \<in> set (pub_nodes_all example_graph)
      \<and> v \<notin> set (pubs_to_show runtime0 example_graph [''Publication'', ''Keyword''] 2)"
    unfolding n s using a by (simp add: asc_def)
  from orphan_entity_kept [OF h1 b t c] h1 b n a s show ?thesis by blast
qed

section \<open>Graph assembly\<close>

subsection \<open>What the graph operations do to the node and edge lists\<close>

lemma nodes_add_node:
  "nodes (add_node n ty col sz lab G)
     = put_node (n, \<lparr>ntype = Some ty, ncolor = Some col, nsize = Some sz, nlabel = Some lab\<rparr>) (nodes G)"
  and edges_add_node: "edges (add_node n ty col sz lab G) = edges G"
  by (simp_all add: add_node_def put_node_def)

lemma has_node_put: "has_node n (G\<lparr>nodes := put_node (k, a) (nodes G)\<rparr>) \<longleftrightarrow> n = k \<or> has_node n G"
  by (auto simp: has_node_def put_node_def dom_update)

lemma add_edge_present:
  assumes "has_node u G" "has_node v G"
  shows "nodes (add_edge u v G) = nodes G" and "edges (add_edge u v G) = put_edge (u, v) (edges G)"
  using assms by (simp_all add: add_edge_def ensure_node_def has_edge_def put_edge_def Let_def)

lemma add_entity_present:
  assumes "has_node pub G"
  shows "nodes (add_entity pub ty sz l G) = put_node (l, entity_attrs ty sz l) (nodes G)"
    and "edges (add_entity pub ty sz l G) = put_edge (pub, l) (edges G)"
    and "has_node pub (add_entity pub ty sz l G)"
proof -
  let ?G = "add_node l ty (type_color ty) sz l G"
  have p: "has_node pub ?G" and l: "has_node l ?G"
    using assms by (auto simp: has_node_def add_node_def dom_update)
  show "nodes (add_entity pub ty sz l G) = put_node (l, entity_attrs ty sz l) (nodes G)"
    by (simp add: add_entity_def add_edge_present(1) [OF p l] nodes_add_node entity_attrs_def)
  show "edges (add_entity pub ty sz l G) = put_edge (pub, l) (edges G)"
    by (simp add: add_entity_def add_edge_present(2) [OF p l] edges_add_node)
  show "has_node pub (add_entity pub ty sz l G)"
    using p by (simp add: add_entity_def add_edge_present(1) [OF p l] has_node_def)
qed

lemma fold_add_entity:
  assumes "has_node pub G"
  shows "nodes (fold (add_entity pub ty sz) ls G)
           = fold put_node (map (\<lambda>l. (l, entity_attrs ty sz l)) ls) (nodes G)
       \<and> edges (fold (add_entity pub ty sz) ls G) = fold put_edge (map (\<lambda>l. (pub, l)) ls) (edges G)
       \<and> has_node pub (fold (add_entity pub ty sz) ls G)"
  using assms
proof (induction ls arbitrary: G)
  case Nil
  then show ?case by simp
next
  case (Cons l ls)
  from Cons.IH [OF add_entity_present(3) [OF Cons.prems]]
  show ?case by (simp add: add_entity_present [OF Cons.prems])
qed

lemma mission_labels_Nil: "mission_labels U [] = []"
  by (simp add: mission_labels_def findall_def findall_from.simps mission_pattern_def at_boundary_def pyset_Nil)

lemma accepted_Dict: "accepted (Dict d) \<longleftrightarrow> \<not> (doc_get d (asc ''Title'') = [] \<or> length (doc_get d (asc ''Title'')) < 5)"
  by (auto simp: accepted_def)

lemma add_document_rejected: "\<not> accepted doc \<Longrightarrow> add_document U (i, doc) G = G"
  by (cases doc) (auto simp: add_document_def accepted_def Let_def)

lemma add_document_writes:
  "nodes (add_document U e G) = fold put_node (doc_writes U e) (nodes G)"
  "edges (add_document U e G) = fold put_edge (doc_links U e) (edges G)"
proof -
  obtain i doc where e: "e = (i, doc)" by (cases e)
  have "nodes (add_document U e G) = fold put_node (doc_writes U e) (nodes G)
      \<and> edges (add_document U e G) = fold put_edge (doc_links U e) (edges G)"
  proof (cases "accepted doc")
    case False
    then show ?thesis by (simp add: e add_document_rejected doc_writes_def doc_links_def)
  next
    case True
    then obtain d where d: "doc = Dict d" by (cases doc) (auto simp: accepted_def)
    let ?title = "doc_get d (asc ''Title'')"
    let ?intro = "doc_get d (asc ''Introduction'')"
    let ?abstract = "doc_get d (asc ''Abstract'')"
    let ?pub = "asc ''pub_'' @ i"
    let ?G1 = "add_node ?pub ''Publication'' (type_color ''Publication'') 18 (take 100 ?title) G"
    let ?G2 = "fold (add_entity ?pub ''Mission'' 14) (mission_labels U ?intro) ?G1"
    let ?G3 = "fold (add_entity ?pub ''Keyword'' 10) (keyword_labels ?title ?abstract) ?G2"
    let ?G4 = "fold (add_entity ?pub ''Organism'' 12) (organism_labels U ?intro ?abstract) ?G3"
    have G2: "(if ?intro \<noteq> [] then ?G2 else ?G1) = ?G2"
      by (simp add: mission_labels_Nil)
    have run: "add_document U e G = ?G4"
      using True unfolding e d add_document_def prod.case jdoc.case Let_def G2 accepted_Dict
      by simp
    have p1: "has_node ?pub ?G1"
      by (simp add: has_node_def add_node_def dom_update)
    note s2 = fold_add_entity [OF p1, of "''Mission''" 14 "mission_labels U ?intro"]
    from s2 have p2: "has_node ?pub ?G2" by simp
    note s3 = fold_add_entity [OF p2, of "''Keyword''" 10 "keyword_labels ?title ?abstract"]
    from s3 have p3: "has_node ?pub ?G3" by simp
    note s4 = fold_add_entity [OF p3, of "''Organism''" 12 "organism_labels U ?intro ?abstract"]
    have w: "doc_writes U e = (?pub, entity_attrs ''Publication'' 18 (take 100 ?title))
        # map (\<lambda>l. (l, entity_attrs ''Mission'' 14 l)) (mission_labels U ?intro)
        @ map (\<lambda>l. (l, entity_attrs ''Keyword'' 10 l)) (keyword_labels ?title ?abstract)
        @ map (\<lambda>l. (l, entity_attrs ''Organism'' 12 l)) (organism_labels U ?intro ?abstract)"
      using True by (simp add: e d doc_writes_def doc_entities_def comp_def)
    have l: "doc_links U e = map (\<lambda>l. (?pub, l)) (mission_labels U ?intro)
        @ map (\<lambda>l. (?pub, l)) (keyword_labels ?title ?abstract)
        @ map (\<lambda>l. (?pub, l)) (organism_labels U ?intro ?abstract)"
      using True by (simp add: e d doc_links_def doc_entities_def comp_def)
    have n1: "nodes ?G1 = put_node (?pub, entity_attrs ''Publication'' 18 (take 100 ?title)) (nodes G)"
      by (simp add: nodes_add_node entity_attrs_def)
    have e1: "edges ?G1 = edges G" by (simp add: edges_add_node)
    show ?thesis
      unfolding run w l using s2 s3 s4 by (simp add: n1 e1)
  qed
  then show "nodes (add_document U e G) = fold put_node (doc_writes U e) (nodes G)"
    and "edges (add_document U e G) = fold put_edge (doc_links U e) (edges G)" by simp_all
qed

lemma fold_add_document:
  "nodes (fold (add_document U) data G) = fold put_node (concat (map (doc_writes U) data)) (nodes G)
 \<and> edges (fold (add_document U) data G) = fold put_edge (concat (map (doc_links U) data)) (edges G)"
  by (induction data arbitrary: G) (simp_all add: add_document_writes)

lemma build_graph_writes:
  "nodes (build_graph U data) = fold put_node (concat (map (doc_writes U) data)) []"
  "edges (build_graph U data) = fold put_edge (concat (map (doc_links U) data)) []"
  using fold_add_document [of U data empty_graph] by (simp_all add: build_graph_def empty_graph_def)

subsection \<open>Folding writes into a dictionary, and links into an edge list\<close>

lemma put_node_distinct: "distinct (map fst ns) \<Longrightarrow> distinct (map fst (put_node e ns))"
  by (cases e) (simp add: put_node_def distinct_update)

lemma fold_put_node_distinct: "distinct (map fst ns) \<Longrightarrow> distinct (map fst (fold put_node ws ns))"
  by (induction ws arbitrary: ns) (simp_all add: put_node_distinct)

lemma set_update_subset: "set (AList.update k a ns) \<subseteq> insert (k, a) (set ns)"
  by (induction ns) auto

lemma fold_put_node_subset: "set (fold put_node ws ns) \<subseteq> set ws \<union> set ns"
proof (induction ws arbitrary: ns)
  case Nil show ?case by simp
next
  case (Cons w ws)
  obtain k a where w: "w = (k, a)" by (cases w)
  have "set (fold put_node ws (put_node w ns)) \<subseteq> set ws \<union> set (put_node w ns)" by (rule Cons.IH)
  also have "set (put_node w ns) \<subseteq> insert w (set ns)"
    by (simp add: w put_node_def set_update_subset)
  finally show ?case by auto
qed

lemma fold_put_node_keys: "fst ` set (fold put_node ws ns) = fst ` set ws \<union> fst ` set ns"
proof (induction ws arbitrary: ns)
  case Nil show ?case by simp
next
  case (Cons w ws)
  obtain k a where w: "w = (k, a)" by (cases w)
  show ?case by (simp add: Cons.IH) (auto simp: w put_node_def dom_update)
qed

lemma put_edge_mono: "set es \<subseteq> set (put_edge e es)"
  by (cases e) (auto simp: put_edge_def)

lemma fold_put_edge_mono: "set es \<subseteq> set (fold put_edge ls es)"
proof (induction ls arbitrary: es)
  case Nil show ?case by simp
next
  case (Cons l ls)
  from put_edge_mono [of es l] Cons.IH [of "put_edge l es"] show ?case by auto
qed

lemma put_edge_subset: "set (put_edge e es) \<subseteq> insert e (set es)"
  by (cases e) (auto simp: put_edge_def)

lemma fold_put_edge_subset: "set (fold put_edge ls es) \<subseteq> set ls \<union> set es"
proof (induction ls arbitrary: es)
  case Nil show ?case by simp
next
  case (Cons l ls)
  from put_edge_subset [of l es] Cons.IH [of "put_edge l es"] show ?case by auto
qed

lemma fold_put_edge_linked:
  "(u, v) \<in> set ls \<Longrightarrow> (u, v) \<in> set (fold put_edge ls es) \<or> (v, u) \<in> set (fold put_edge ls es)"
proof (induction ls arbitrary: es)
  case Nil then show ?case by simp
next
  case (Cons l ls)
  show ?case
  proof (cases "l = (u, v)")
    case True
    have "(u, v) \<in> set (put_edge l es) \<or> (v, u) \<in> set (put_edge l es)"
      by (auto simp: True put_edge_def)
    with fold_put_edge_mono [of "put_edge l es" ls] show ?thesis by auto
  next
    case False
    with Cons.prems have "(u, v) \<in> set ls" by simp
    from Cons.IH [OF this] show ?thesis by simp
  qed
qed

text \<open>Rejected records: the loop leaves the graph as it is.\<close>

lemma build_graph_skip:
  assumes "\<not> accepted doc"
  shows "build_graph U (xs @ (i, doc) # ys) = build_graph U (xs @ ys)"
  by (simp add: build_graph_def add_document_rejected [OF assms])

lemma clean_data_fresh:
  "distinct (map fst data) \<Longrightarrow> fst ` set acc \<inter> fst ` set data = {} \<Longrightarrow>
   fold (\<lambda>(k, doc) acc. case doc of RawOther \<Rightarrow> acc | RawDict d \<Rightarrow> AList.update k (clean_doc U d) acc) data acc
     = acc @ concat (map (\<lambda>(k, doc). case doc of RawOther \<Rightarrow> [] | RawDict d \<Rightarrow> [(k, clean_doc U d)]) data)"
proof (induction data arbitrary: acc)
  case Nil then show ?case by simp
next
  case (Cons e data)
  obtain k doc where e: "e = (k, doc)" by (cases e)
  show ?case
  proof (cases doc)
    case RawOther
    with Cons e show ?thesis by auto
  next
    case (RawDict d)
    from Cons.prems e have k: "k \<notin> fst ` set acc" by auto
    then have u: "AList.update k (clean_doc U d) acc = acc @ [(k, clean_doc U d)]"
      by (induction acc) auto
    have "fst ` set (acc @ [(k, clean_doc U d)]) \<inter> fst ` set data = {}"
      using Cons.prems e by auto
    moreover have "distinct (map fst data)" using Cons.prems by simp
    ultimately show ?thesis
      using Cons.IH [of "acc @ [(k, clean_doc U d)]"] by (simp add: e RawDict u)
  qed
qed

lemma clean_data_distinct:
  "distinct (map fst data) \<Longrightarrow>
   clean_data U data = concat (map (\<lambda>(k, doc). case doc of RawOther \<Rightarrow> [] | RawDict d \<Rightarrow> [(k, clean_doc U d)]) data)"
  using clean_data_fresh [of data "[]" U] by (simp add: clean_data_def)

text \<open>
  C3. The loop has no statement that can raise on a record: a value that is not a
  dictionary is skipped, every field of a dictionary is made a string by \<open>clean_text\<close>,
  which is total, and the extractions are total on strings. A record that is not a
  dictionary, or whose cleaned title has fewer than five characters (the empty title
  included), contributes nothing: the graph is the graph of the mapping without it.
\<close>

theorem rejected_record_contributes_nothing:
  assumes keys: "distinct (map fst (xs @ (k, r) # ys))"
    and rej: "r = RawOther \<or> (\<exists>d. r = RawDict d \<and> length (clean_text U (raw_get d (asc ''Title''))) < 5)"
  shows "load_graph_data U (xs @ (k, r) # ys) = load_graph_data U (xs @ ys)"
proof -
  let ?c = "\<lambda>(k, doc). case doc of RawOther \<Rightarrow> [] | RawDict d \<Rightarrow> [(k, clean_doc U d)]"
  from keys have keys': "distinct (map fst (xs @ ys))" by auto
  have a: "clean_data U (xs @ (k, r) # ys) = concat (map ?c xs) @ ?c (k, r) @ concat (map ?c ys)"
    by (simp add: clean_data_distinct [OF keys])
  have b: "clean_data U (xs @ ys) = concat (map ?c xs) @ concat (map ?c ys)"
    by (simp add: clean_data_distinct [OF keys'])
  show ?thesis
  proof (cases r)
    case RawOther
    then have "?c (k, r) = []" by simp
    then show ?thesis unfolding load_graph_data_def a b by simp
  next
    case (RawDict d)
    with rej have short: "length (clean_text U (raw_get d (asc ''Title''))) < 5" by auto
    have "doc_get [(asc ''Title'', t), (asc ''Abstract'', a), (asc ''Introduction'', i), (asc ''Link'', l)] (asc ''Title'') = t"
      for t a i l by (simp add: doc_get_def)
    with short have "\<not> accepted (clean_doc U d)"
      by (simp add: clean_doc_def accepted_def)
    moreover have "?c (k, r) = [(k, clean_doc U d)]" using RawDict by simp
    ultimately show ?thesis
      unfolding load_graph_data_def a b by (simp add: build_graph_skip)
  qed
qed

theorem rejected_record_contributes_nothing_witness:
  "load_graph_data runtime0
     [(asc ''1'', RawDict [(asc ''Title'', PyStr (asc ''Hi'')), (asc ''Abstract'', PyStr (asc ''microgravity bone''))])]
   = empty_graph"
proof -
  let ?d = "[(asc ''Title'', PyStr (asc ''Hi'')), (asc ''Abstract'', PyStr (asc ''microgravity bone''))]"
  have k: "distinct (map fst ([] @ (asc ''1'', RawDict ?d) # []))" by simp
  have c: "clean_text runtime0 (raw_get ?d (asc ''Title'')) = asc ''Hi''"
    by (simp add: ev raw_get_def)
  have r: "RawDict ?d = RawOther
      \<or> (\<exists>d. RawDict ?d = RawDict d \<and> length (clean_text runtime0 (raw_get d (asc ''Title''))) < 5)"
    by (simp add: c) (simp add: asc_def)
  from rejected_record_contributes_nothing [OF k r]
  show ?thesis by (simp add: load_graph_data_def clean_data_def build_graph_def)
qed

section \<open>What the patterns match\<close>

subsection \<open>What a pattern can match\<close>

lemma take_run:
  assumes "n \<le> length (takeWhile P s)"
  shows "\<forall>c \<in> set (take n s). P c"
proof -
  have "take n (takeWhile P s) = take n (take (length (takeWhile P s)) s)"
    using takeWhile_eq_take [of P s] by simp
  also have "\<dots> = take n s" using assms by (simp add: min_def)
  finally have "set (take n s) \<subseteq> set (takeWhile P s)"
    by (metis set_take_subset)
  then show ?thesis by (auto dest: set_takeWhileD)
qed

lemma rmatch_lang: "(m, r') \<in> set (rmatch U r p s) \<Longrightarrow> m \<in> lang U r"
proof (induction r arbitrary: p s m r')
  case (Many cl)
  then have "(m, r') \<in> (\<lambda>n. (take n s, drop n s)) ` {0 ..< Suc (length (takeWhile (in_class U cl) s))}"
    by (simp del: upt_Suc)
  then obtain n where "n < Suc (length (takeWhile (in_class U cl) s))" "m = take n s"
    by (auto simp del: upt_Suc)
  then have "n \<le> length (takeWhile (in_class U cl) s)" "m = take n s" by simp_all
  with take_run show ?case by auto
next
  case (Many1 cl)
  then have "(m, r') \<in> (\<lambda>n. (take n s, drop n s)) ` {1 ..< Suc (length (takeWhile (in_class U cl) s))}"
    by (simp del: upt_Suc)
  then obtain n where "1 \<le> n \<and> n < Suc (length (takeWhile (in_class U cl) s))" "m = take n s"
    by (auto simp del: upt_Suc)
  then have n: "1 \<le> n" "n \<le> length (takeWhile (in_class U cl) s)" "m = take n s" by simp_all
  have "length (takeWhile (in_class U cl) s) \<le> length s" by (rule length_takeWhile_le)
  with n have "m \<noteq> []" by auto
  with n take_run show ?case by auto
next
  case (Cat a b)
  from Cat.prems obtain m1 r1 m2 where a: "(m1, r1) \<in> set (rmatch U a p s)"
    and b: "(m2, r') \<in> set (rmatch U b (prev_after p m1) r1)" and m: "m = m1 @ m2"
    by auto
  from Cat.IH(1)[OF a] Cat.IH(2)[OF b] m show ?case by auto
qed (auto split: list.splits if_splits)

lemma findall_from_sound:
  "m \<in> set (findall_from U r p s) \<Longrightarrow> m \<in> lang U r \<and> (\<exists>a b. s = a @ m @ b)"
proof (induction "length s" arbitrary: s p rule: less_induct)
  case less
  note mem = less.prems [unfolded findall_from.simps [of U r p s]]
  show ?case
  proof (cases "rmatch U r p s")
    case Nil
    show ?thesis
    proof (cases s)
      case s: Nil
      with mem \<open>rmatch U r p s = []\<close> show ?thesis by simp
    next
      case (Cons c t)
      with mem Nil have "m \<in> set (findall_from U r (Some c) t)" by simp
      from less.hyps [OF _ this] Cons obtain a b where "m \<in> lang U r" "t = a @ m @ b" by auto
      then have "s = (c # a) @ m @ b" using Cons by simp
      with \<open>m \<in> lang U r\<close> show ?thesis by blast
    qed
  next
    case (Cons x rest)
    obtain m0 r0 where x: "x = (m0, r0)" by (cases x)
    have hd: "(m0, r0) \<in> set (rmatch U r p s)" by (simp add: Cons x)
    note sp = rmatch_split [OF hd]
    have first: "m0 \<in> lang U r \<and> (\<exists>a b. s = a @ m0 @ b)"
      using rmatch_lang [OF hd] sp by (metis append_Nil)
    show ?thesis
    proof (cases "m0 = []")
      case True
      show ?thesis
      proof (cases s)
        case Nil
        with mem Cons x True have "m = m0" by simp
        with first show ?thesis by simp
      next
        case c: (Cons c t)
        with mem Cons x True have "m = m0 \<or> m \<in> set (findall_from U r (Some c) t)" by auto
        then show ?thesis
        proof
          assume "m = m0" with first show ?thesis by simp
        next
          assume "m \<in> set (findall_from U r (Some c) t)"
          from less.hyps [OF _ this] c obtain a b where "m \<in> lang U r" "t = a @ m @ b" by auto
          then have "s = (c # a) @ m @ b" using c by simp
          with \<open>m \<in> lang U r\<close> show ?thesis by blast
        qed
      qed
    next
      case False
      with mem Cons x have "m = m0 \<or> m \<in> set (findall_from U r (Some (last m0)) r0)" by auto
      then show ?thesis
      proof
        assume "m = m0" with first show ?thesis by simp
      next
        assume rec: "m \<in> set (findall_from U r (Some (last m0)) r0)"
        have "length r0 < length s" using sp False by (cases m0) auto
        from less.hyps [OF this rec] obtain a b where "m \<in> lang U r" "r0 = a @ m @ b" by auto
        then have "s = (m0 @ a) @ m @ b" using sp by simp
        with \<open>m \<in> lang U r\<close> show ?thesis by blast
      qed
    qed
  qed
qed

lemma findall_sound: "m \<in> set (findall U r s) \<Longrightarrow> m \<in> lang U r \<and> (\<exists>a b. s = a @ m @ b)"
  unfolding findall_def by (rule findall_from_sound)

lemma lang_lits: "lang U (lits w) = {m. list_all2 lit_ic w m}"
proof (induction w)
  case Nil show ?case by simp
next
  case (Cons c cs)
  have "lang U (lits (c # cs)) = {x # m2 | x m2. lit_ic c x \<and> m2 \<in> lang U (lits cs)}"
  proof (rule set_eqI, rule iffI)
    fix m assume "m \<in> lang U (lits (c # cs))"
    then show "m \<in> {x # m2 | x m2. lit_ic c x \<and> m2 \<in> lang U (lits cs)}" by auto
  next
    fix m assume "m \<in> {x # m2 | x m2. lit_ic c x \<and> m2 \<in> lang U (lits cs)}"
    then obtain x m2 where "m = [x] @ m2" "lit_ic c x" "m2 \<in> lang U (lits cs)" by auto
    then show "m \<in> lang U (lits (c # cs))" by (simp del: append.simps) blast
  qed
  then show ?case by (auto simp: Cons.IH list_all2_Cons1)
qed

lemma lang_anchored: "lang U (Cat WordB (Cat r WordB)) = lang U r"
  by simp

lemma organism_lang:
  assumes "m \<in> lang U organism_pattern"
  shows "\<exists>w \<in> set org_words. list_all2 lit_ic w m"
proof -
  have j: "asc ''C57BL/6J'' = asc ''C57BL/6'' @ [74]" by (simp add: asc_def)
  have opt: "list_all2 lit_ic (asc ''C57BL/6'') m1 \<Longrightarrow> lit_ic 74 c \<Longrightarrow> list_all2 lit_ic (asc ''C57BL/6J'') (m1 @ [c])"
    for m1 c unfolding j by (rule list_all2_appendI) simp_all
  from assms show ?thesis
    unfolding organism_pattern_def lang_anchored org_words_def
    by (auto simp: lang_lits opt)
qed

lemma title_from_length: "length s \<le> length (title_from b s)"
proof (induction s arbitrary: b)
  case Nil show ?case by simp
next
  case (Cons c s)
  have "1 \<le> length (if b then lower_cp c else title_cp c)"
    by (simp add: lower_cp_def title_cp_def)
  with Cons [of "is_cased c"] show ?case by simp
qed

lemma lit_ic_lower:
  assumes "lit_ic p c" "p < 128" "ascii_lower p \<noteq> 107" "c \<noteq> 304" "c \<noteq> 305" "c \<noteq> 383"
  shows "lower_cp c = [ascii_lower p]"
proof -
  from assms have e: "ascii_lower c = ascii_lower p" by (auto simp: lit_ic_def)
  from assms(2) have "ascii_lower p < 8490" by (simp add: ascii_lower_def)
  with e have "c \<noteq> 8490" by (auto simp: ascii_lower_def)
  with assms(4) e show ?thesis by (auto simp: lower_cp_def ascii_lower_def)
qed

lemma list_ic_lower:
  assumes "list_all2 lit_ic w m" "\<forall>p \<in> set w. p < 128 \<and> ascii_lower p \<noteq> 107"
    "\<forall>c \<in> set m. c \<noteq> 304 \<and> c \<noteq> 305 \<and> c \<noteq> 383"
  shows "py_lower m = map ascii_lower w"
  using assms
proof (induction rule: list_all2_induct)
  case Nil show ?case by (simp add: py_lower_def)
next
  case (Cons p w c m)
  then have "lower_cp c = [ascii_lower p]" by (intro lit_ic_lower) auto
  moreover have "py_lower m = map ascii_lower w" using Cons by simp
  ultimately show ?case by (simp add: py_lower_def)
qed

lemma org_words_table:
  "\<forall>w \<in> set org_words. (\<forall>p \<in> set w. p < 128 \<and> ascii_lower p \<noteq> 107) \<and> 4 \<le> length w
     \<and> map_of organism_mapping (map ascii_lower w) \<in> {Some (asc ''Mice''), Some (asc ''Rats''), Some (asc ''Humans'')}"
  by (simp add: org_words_def organism_mapping_def asc_def ascii_lower_def)

lemma organism_match_lookup:
  assumes m: "m \<in> set (findall U organism_pattern s)"
    and ok: "\<forall>c \<in> set s. c \<noteq> 304 \<and> c \<noteq> 305 \<and> c \<noteq> 383"
  shows "map_of organism_mapping (py_lower m) \<in> {Some (asc ''Mice''), Some (asc ''Rats''), Some (asc ''Humans'')}"
proof -
  from findall_sound [OF m] obtain a b where l: "m \<in> lang U organism_pattern" and s: "s = a @ m @ b" by blast
  from organism_lang [OF l] obtain w where w: "w \<in> set org_words" "list_all2 lit_ic w m" by blast
  from s ok have "\<forall>c \<in> set m. c \<noteq> 304 \<and> c \<noteq> 305 \<and> c \<noteq> 383" by auto
  with w org_words_table have "py_lower m = map ascii_lower w"
    by (intro list_ic_lower) auto
  with w(1) org_words_table show ?thesis by auto
qed

lemma organism_match_length:
  assumes "m \<in> set (findall U organism_pattern s)"
  shows "4 \<le> length m"
proof -
  from findall_sound [OF assms] have "m \<in> lang U organism_pattern" by blast
  from organism_lang [OF this] obtain w where w: "w \<in> set org_words" "list_all2 lit_ic w m" by blast
  from w(2) have "length m = length w" by (simp add: list_all2_lengthD)
  with w(1) org_words_table show ?thesis by auto
qed

lemma org_label_not_ISS:
  assumes "m \<in> set (findall U organism_pattern s)"
  shows "org_label m \<noteq> asc ''ISS''"
proof (cases "map_of organism_mapping (py_lower m)")
  case None
  have "4 \<le> length (py_title m)"
    using organism_match_length [OF assms] title_from_length [of m False] by (simp add: py_title_def)
  then show ?thesis by (auto simp: org_label_def None asc_def)
next
  case (Some l)
  then have "(py_lower m, l) \<in> set organism_mapping" by (rule map_of_SomeD)
  then have "l \<noteq> asc ''ISS''" by (auto simp: organism_mapping_def asc_def)
  then show ?thesis by (simp add: org_label_def Some)
qed

end
